theory Spec2Isabelle
  imports Complex_Main "HOL-Library.AList"
begin

section \<open>Data model\<close>

text \<open>
  The execution-simulation core of the repository: \<^verbatim>\<open>src/orders/order.py\<close>,
  \<^verbatim>\<open>src/orders/order_book.py\<close>, \<^verbatim>\<open>src/orders/manager.py\<close>,
  \<^verbatim>\<open>src/portfolio/manager.py\<close>, \<^verbatim>\<open>src/broker/paper.py\<close> and
  \<^verbatim>\<open>src/backtesting/engine.py\<close>.

  Conventions of the embedding.
  \<^item> Python \<^verbatim>\<open>int\<close> is \<open>int\<close>. Python \<^verbatim>\<open>float\<close> (prices, cash, commission) is
    idealised as \<open>real\<close>: the properties below are identities of arithmetic, not statements
    about rounding.
  \<^item> \<^verbatim>\<open>datetime\<close> and \<^verbatim>\<open>timedelta\<close> are integers (microseconds), which is how Python
    computes with them.
  \<^item> \<^verbatim>\<open>Order\<close> and \<^verbatim>\<open>FillEvent\<close> are mutable objects that several containers share
    (an order sits in the latency queue, the book's active list and its history; a fill sits
    in the order's \<^verbatim>\<open>fills\<close>, in the list \<^verbatim>\<open>process_bar\<close> returns, in the broker's
    \<^verbatim>\<open>fills\<close> and in the ledger's \<^verbatim>\<open>trade_history\<close>). They therefore live in an explicit
    store, and containers hold references (indices into the store). Creating an object
    appends it to the store, so the new reference is the store's length.
  \<^item> A name with a leading underscore loses it (\<^verbatim>\<open>_orders\<close> is \<open>orders\<close>,
    \<^verbatim>\<open>_record_fill\<close> is \<open>record_fill\<close>); \<^verbatim>\<open>Order.id\<close> is \<open>order_id\<close>; fields of
    \<^verbatim>\<open>FillEvent\<close> and \<^verbatim>\<open>Position\<close> that share a name with a field of \<^verbatim>\<open>Order\<close> carry a
    prefix.
\<close>

type_synonym symbol = string
type_synonym datetime = int
type_synonym timedelta = int
type_synonym oref = nat
type_synonym fref = nat

datatype SignalType = BUY | SELL | HOLD

datatype OrderType = MARKET | LIMIT | STOP

datatype OrderStatus = PENDING | PARTIALLY_FILLED | FILLED | CANCELLED | EXPIRED

text \<open>
  The exceptions of the source. \<open>NoSuchObject\<close> is not one of them: it marks an operation
  of a trace below that names a reference no object stands behind, which no Python program
  can hold.
\<close>

datatype error = ValueError | TypeError | KeyError | ExecutionError | NoSuchObject

record FillEvent =
  fill_symbol :: symbol
  fill_time :: datetime
  fill_type :: SignalType
  fill_quantity :: int
  fill_price :: real
  fill_commission :: real

record Order =
  symbol :: symbol
  side :: SignalType
  order_type :: OrderType
  quantity :: int
  limit_price :: "real option"
  stop_price :: "real option"
  created_at :: datetime
  timeout :: "timedelta option"
  order_id :: string
  filled_qty :: int
  status :: OrderStatus
  fills :: "fref list"

record store =
  order_objs :: "Order list"
  fill_objs :: "FillEvent list"

definition empty_store :: store where
  "empty_store = \<lparr>order_objs = [], fill_objs = []\<rparr>"

section \<open>Order (src/orders/order.py)\<close>

text \<open>
  The dataclass constructor. Its generated \<^verbatim>\<open>__init__\<close> takes the eight declared fields and
  also \<^verbatim>\<open>filled_qty\<close> (declared \<^verbatim>\<open>filled_qty: int = 0\<close>, without \<^verbatim>\<open>init=False\<close>);
  \<^verbatim>\<open>id\<close>, \<^verbatim>\<open>status\<close> and \<^verbatim>\<open>fills\<close> are not parameters. \<open>uuid\<close> is the value
  \<^verbatim>\<open>uuid4().hex\<close> returned and \<open>created\<close> the value of \<^verbatim>\<open>created_at\<close> (the caller's, or
  \<^verbatim>\<open>datetime.utcnow()\<close>). The checks are those of \<^verbatim>\<open>__post_init__\<close>, in its order.
\<close>

definition Order_init ::
  "symbol \<Rightarrow> SignalType \<Rightarrow> OrderType \<Rightarrow> int \<Rightarrow> real option \<Rightarrow> real option \<Rightarrow>
   datetime \<Rightarrow> timedelta option \<Rightarrow> int \<Rightarrow> string \<Rightarrow> error + Order" where
  "Order_init symb sd ty qty lmt stp created tmo fq uuid =
     (if qty \<le> 0 then Inl ValueError
      else if ty = LIMIT \<and> lmt = None then Inl ValueError
      else if ty = STOP \<and> stp = None then Inl ValueError
      else if sd = HOLD then Inl ValueError
      else Inr \<lparr>symbol = symb, side = sd, order_type = ty, quantity = qty,
                limit_price = lmt, stop_price = stp, created_at = created, timeout = tmo,
                order_id = uuid, filled_qty = fq, status = PENDING, fills = []\<rparr>)"

text \<open>Creating the object: the constructor runs, and on success the object enters the store.\<close>

definition new_order :: "store \<Rightarrow> Order \<Rightarrow> store \<times> oref" where
  "new_order st ord = (st\<lparr>order_objs := order_objs st @ [ord]\<rparr>, length (order_objs st))"

definition remaining :: "Order \<Rightarrow> int" where
  "remaining ord = quantity ord - filled_qty ord"

definition is_open :: "Order \<Rightarrow> bool" where
  "is_open ord = (status ord = PENDING \<or> status ord = PARTIALLY_FILLED)"

text \<open>\<^verbatim>\<open>_record_fill(fill)\<close>: \<open>fr\<close> is the reference to the fill, \<open>q\<close> its quantity.\<close>

definition record_fill :: "Order \<Rightarrow> fref \<Rightarrow> int \<Rightarrow> Order" where
  "record_fill ord fr q =
     (let fq = filled_qty ord + q
      in ord\<lparr>fills := fills ord @ [fr], filled_qty := fq,
              status := (if fq \<ge> quantity ord then FILLED else PARTIALLY_FILLED)\<rparr>)"

definition maybe_timeout :: "Order \<Rightarrow> datetime \<Rightarrow> Order" where
  "maybe_timeout ord now =
     (case timeout ord of
        None \<Rightarrow> ord
      | Some tmo \<Rightarrow>
          if \<not> is_open ord then ord
          else if now - created_at ord > tmo then ord\<lparr>status := EXPIRED\<rparr>
          else ord)"

definition cancel :: "Order \<Rightarrow> Order" where
  "cancel ord = (if is_open ord then ord\<lparr>status := CANCELLED\<rparr> else ord)"

section \<open>OrderBook (src/orders/order_book.py)\<close>

text \<open>
  \<^verbatim>\<open>_orders\<close> is a \<^verbatim>\<open>defaultdict(list)\<close>: an association list in insertion order, which is
  the order \<^verbatim>\<open>.values()\<close> iterates in.
\<close>

record OrderBook =
  orders :: "(symbol \<times> oref list) list"
  history :: "oref list"
  max_qty_per_fill :: "int option"

definition OrderBook_init :: "int option \<Rightarrow> OrderBook" where
  "OrderBook_init cap = \<lparr>orders = [], history = [], max_qty_per_fill = cap\<rparr>"

definition orders_of :: "OrderBook \<Rightarrow> symbol \<Rightarrow> oref list" where
  "orders_of ob symb = (case map_of (orders ob) symb of None \<Rightarrow> [] | Some rs \<Rightarrow> rs)"

definition add_order :: "store \<Rightarrow> OrderBook \<Rightarrow> oref \<Rightarrow> OrderBook" where
  "add_order st ob r =
     (let symb = symbol (order_objs st ! r)
      in ob\<lparr>orders := AList.update symb (orders_of ob symb @ [r]) (orders ob),
             history := history ob @ [r]\<rparr>)"

definition OrderBook_cancel_order :: "store \<Rightarrow> OrderBook \<Rightarrow> string \<Rightarrow> store \<times> bool" where
  "OrderBook_cancel_order st ob oid =
     (case find (\<lambda>r. order_id (order_objs st ! r) = oid \<and> is_open (order_objs st ! r))
             (concat (map snd (orders ob))) of
        None \<Rightarrow> (st, False)
      | Some r \<Rightarrow> (st\<lparr>order_objs := (order_objs st)[r := cancel (order_objs st ! r)]\<rparr>, True))"

text \<open>
  The type dispatch of \<^verbatim>\<open>process_bar\<close>: \<open>Inr (Some p)\<close> is a fill at price \<open>p\<close>,
  \<open>Inr None\<close> is \<^verbatim>\<open>continue\<close>, and \<open>Inl TypeError\<close> is what Python raises when it compares a
  float with \<^verbatim>\<open>None\<close> (a LIMIT order without a limit price, a STOP order without a stop
  price). \<^verbatim>\<open>and\<close> and \<^verbatim>\<open>or\<close> short-circuit, so the comparison only runs on the side that
  matches.
\<close>

definition fill_price_of :: "Order \<Rightarrow> real \<Rightarrow> real \<Rightarrow> real \<Rightarrow> error + real option" where
  "fill_price_of ord price high low =
     (case order_type ord of
        MARKET \<Rightarrow> Inr (Some price)
      | LIMIT \<Rightarrow>
          (case limit_price ord of
             None \<Rightarrow> if side ord = BUY \<or> side ord = SELL then Inl TypeError else Inr None
           | Some lmt \<Rightarrow>
               if side ord = BUY \<and> low \<le> lmt then Inr (Some (min lmt price))
               else if side ord = SELL \<and> high \<ge> lmt then Inr (Some (max lmt price))
               else Inr None)
      | STOP \<Rightarrow>
          (case stop_price ord of
             None \<Rightarrow> if side ord = BUY \<or> side ord = SELL then Inl TypeError else Inr None
           | Some stp \<Rightarrow>
               if (side ord = BUY \<and> high \<ge> stp) \<or> (side ord = SELL \<and> low \<le> stp)
               then Inr (Some price) else Inr None))"

text \<open>
  The quantity of the fill: \<open>arg_cap\<close> is the \<^verbatim>\<open>max_qty_per_fill\<close> argument of
  \<^verbatim>\<open>process_bar\<close>, \<open>book_cap\<close> the book's default.
\<close>

definition fill_qty :: "Order \<Rightarrow> int option \<Rightarrow> int option \<Rightarrow> int" where
  "fill_qty ord arg_cap book_cap =
     (let effective_cap = (case arg_cap of Some c \<Rightarrow> Some c | None \<Rightarrow> book_cap)
      in case effective_cap of
           None \<Rightarrow> remaining ord
         | Some c \<Rightarrow> if filled_qty ord > 0 then remaining ord else min (remaining ord) c)"

text \<open>
  One iteration of the loop of \<^verbatim>\<open>process_bar\<close>, on the order \<open>r\<close> refers to. It returns
  the store and the references of the fills created (none or one).
\<close>

definition process_order ::
  "symbol \<Rightarrow> datetime \<Rightarrow> real \<Rightarrow> real \<Rightarrow> real \<Rightarrow> real \<Rightarrow> int option \<Rightarrow> int option \<Rightarrow>
   store \<Rightarrow> oref \<Rightarrow> error + (store \<times> fref list)" where
  "process_order symb time price high low commission arg_cap book_cap st r =
     (let ord = order_objs st ! r in
      if \<not> is_open ord then Inr (st, [])
      else
        let ord1 = maybe_timeout ord time;
            st1 = st\<lparr>order_objs := (order_objs st)[r := ord1]\<rparr>
        in if \<not> is_open ord1 then Inr (st1, [])
           else
             case fill_price_of ord1 price high low of
               Inl e \<Rightarrow> Inl e
             | Inr None \<Rightarrow> Inr (st1, [])
             | Inr (Some p) \<Rightarrow>
                 let qty = fill_qty ord1 arg_cap book_cap;
                     fill = \<lparr>fill_symbol = symb, fill_time = time, fill_type = side ord1,
                             fill_quantity = qty, fill_price = p,
                             fill_commission = commission\<rparr>;
                     fr = length (fill_objs st1)
                 in Inr (st1\<lparr>order_objs := (order_objs st1)[r := record_fill ord1 fr qty],
                             fill_objs := fill_objs st1 @ [fill]\<rparr>, [fr]))"

fun process_orders ::
  "symbol \<Rightarrow> datetime \<Rightarrow> real \<Rightarrow> real \<Rightarrow> real \<Rightarrow> real \<Rightarrow> int option \<Rightarrow> int option \<Rightarrow>
   oref list \<Rightarrow> store \<Rightarrow> fref list \<Rightarrow> error + (store \<times> fref list)" where
  "process_orders symb time price high low commission arg_cap book_cap [] st fs = Inr (st, fs)"
| "process_orders symb time price high low commission arg_cap book_cap (r # rs) st fs =
     (case process_order symb time price high low commission arg_cap book_cap st r of
        Inl e \<Rightarrow> Inl e
      | Inr (st', new) \<Rightarrow>
          process_orders symb time price high low commission arg_cap book_cap rs st' (fs @ new))"

definition process_bar ::
  "store \<Rightarrow> OrderBook \<Rightarrow> symbol \<Rightarrow> datetime \<Rightarrow> real \<Rightarrow> real \<Rightarrow> real \<Rightarrow> real \<Rightarrow> int option \<Rightarrow>
   error + (store \<times> fref list)" where
  "process_bar st ob symb time price high low commission arg_cap =
     process_orders symb time price high low commission arg_cap (max_qty_per_fill ob)
       (orders_of ob symb) st []"

text \<open>
  What one iteration does to the order object it visits, as a function of that object alone:
  the object afterwards and the fill created, if any. \<open>fr\<close> is the reference the new fill
  gets. It is not part of the source; \<open>process_order_match\<close> below proves that
  \<open>process_order\<close> computes exactly this on the object \<open>r\<close> refers to.
\<close>

definition match_order ::
  "symbol \<Rightarrow> datetime \<Rightarrow> real \<Rightarrow> real \<Rightarrow> real \<Rightarrow> real \<Rightarrow> int option \<Rightarrow> int option \<Rightarrow>
   fref \<Rightarrow> Order \<Rightarrow> error + (Order \<times> FillEvent option)" where
  "match_order symb time price high low commission arg_cap book_cap fr ord =
     (if \<not> is_open (maybe_timeout ord time) then Inr (maybe_timeout ord time, None)
      else
        case fill_price_of (maybe_timeout ord time) price high low of
          Inl e \<Rightarrow> Inl e
        | Inr None \<Rightarrow> Inr (maybe_timeout ord time, None)
        | Inr (Some p) \<Rightarrow>
            Inr (record_fill (maybe_timeout ord time) fr
                   (fill_qty (maybe_timeout ord time) arg_cap book_cap),
                 Some \<lparr>fill_symbol = symb, fill_time = time,
                       fill_type = side (maybe_timeout ord time),
                       fill_quantity = fill_qty (maybe_timeout ord time) arg_cap book_cap,
                       fill_price = p, fill_commission = commission\<rparr>))"

text \<open>
  The orders the constructor lets through: the negation of the four checks of
  \<^verbatim>\<open>__post_init__\<close>.
\<close>

definition valid_order :: "Order \<Rightarrow> bool" where
  "valid_order ord =
     (quantity ord > 0 \<and> side ord \<noteq> HOLD \<and>
      \<not> (order_type ord = LIMIT \<and> limit_price ord = None) \<and>
      \<not> (order_type ord = STOP \<and> stop_price ord = None))"

section \<open>OrderManager (src/orders/manager.py)\<close>

definition validate :: "Order \<Rightarrow> error + unit" where
  "validate ord = (if quantity ord \<le> 0 then Inl ExecutionError else Inr ())"

definition submit :: "store \<Rightarrow> OrderBook \<Rightarrow> oref \<Rightarrow> error + OrderBook" where
  "submit st ob r =
     (case validate (order_objs st ! r) of
        Inl e \<Rightarrow> Inl e
      | Inr _ \<Rightarrow> Inr (add_order st ob r))"

section \<open>Operations of the matching engine, as traces\<close>

text \<open>
  What a client of the engine can do: construct an order, register it
  (directly, or through \<^verbatim>\<open>OrderManager.submit\<close>), run a matching pass, cancel by
  identifier, and call \<^verbatim>\<open>maybe_timeout\<close> or \<^verbatim>\<open>cancel\<close> on an order it holds.
  An operation that raises ends the trace with its error; a caller that catches the error
  goes on from the state before the operation (the constructor creates no object when it
  raises).
\<close>

datatype op =
    NewOrder symbol SignalType OrderType int "real option" "real option" datetime
      "timedelta option" int string
  | AddOrder oref
  | Submit oref
  | ProcessBar symbol datetime real real real real "int option"
  | CancelOrder string
  | MaybeTimeout oref datetime
  | Cancel oref

record engine =
  objs :: store
  book :: OrderBook

definition engine_init :: "int option \<Rightarrow> engine" where
  "engine_init cap = \<lparr>objs = empty_store, book = OrderBook_init cap\<rparr>"

fun exec_op :: "engine \<Rightarrow> op \<Rightarrow> error + engine" where
  "exec_op e (NewOrder symb sd ty qty lmt stp created tmo fq uuid) =
     (case Order_init symb sd ty qty lmt stp created tmo fq uuid of
        Inl err \<Rightarrow> Inl err
      | Inr ord \<Rightarrow> Inr (e\<lparr>objs := fst (new_order (objs e) ord)\<rparr>))"
| "exec_op e (AddOrder r) =
     (if r < length (order_objs (objs e)) then Inr (e\<lparr>book := add_order (objs e) (book e) r\<rparr>)
      else Inl NoSuchObject)"
| "exec_op e (Submit r) =
     (if r < length (order_objs (objs e))
      then (case submit (objs e) (book e) r of
              Inl err \<Rightarrow> Inl err
            | Inr ob \<Rightarrow> Inr (e\<lparr>book := ob\<rparr>))
      else Inl NoSuchObject)"
| "exec_op e (ProcessBar symb time price high low commission arg_cap) =
     (case process_bar (objs e) (book e) symb time price high low commission arg_cap of
        Inl err \<Rightarrow> Inl err
      | Inr (st', fs) \<Rightarrow> Inr (e\<lparr>objs := st'\<rparr>))"
| "exec_op e (CancelOrder oid) =
     Inr (e\<lparr>objs := fst (OrderBook_cancel_order (objs e) (book e) oid)\<rparr>)"
| "exec_op e (MaybeTimeout r now) =
     (if r < length (order_objs (objs e))
      then Inr (e\<lparr>objs := (objs e)\<lparr>order_objs :=
             (order_objs (objs e))[r := maybe_timeout (order_objs (objs e) ! r) now]\<rparr>\<rparr>)
      else Inl NoSuchObject)"
| "exec_op e (Cancel r) =
     (if r < length (order_objs (objs e))
      then Inr (e\<lparr>objs := (objs e)\<lparr>order_objs :=
             (order_objs (objs e))[r := cancel (order_objs (objs e) ! r)]\<rparr>\<rparr>)
      else Inl NoSuchObject)"

fun exec_ops :: "engine \<Rightarrow> op list \<Rightarrow> error + engine" where
  "exec_ops e [] = Inr e"
| "exec_ops e (x # xs) = (case exec_op e x of Inl err \<Rightarrow> Inl err | Inr e' \<Rightarrow> exec_ops e' xs)"

text \<open>The references the book holds: its active lists and its history.\<close>

definition book_refs :: "OrderBook \<Rightarrow> oref set" where
  "book_refs ob = set (concat (map snd (orders ob))) \<union> set (history ob)"

text \<open>
  The invariant of an order: the quantities of its fills add up to \<^verbatim>\<open>filled_qty\<close>, which
  is at most \<^verbatim>\<open>quantity\<close>, and the status is FILLED exactly when the two are equal.
\<close>

definition fills_total :: "store \<Rightarrow> Order \<Rightarrow> int" where
  "fills_total st ord = sum_list (map (\<lambda>fr. fill_quantity (fill_objs st ! fr)) (fills ord))"

definition order_inv :: "store \<Rightarrow> Order \<Rightarrow> bool" where
  "order_inv st ord =
     (fills_total st ord = filled_qty ord \<and> filled_qty ord \<le> quantity ord \<and>
      (status ord = FILLED) = (filled_qty ord = quantity ord))"

text \<open>The fills an order lists are objects of the store.\<close>

definition fills_in_store :: "store \<Rightarrow> Order \<Rightarrow> bool" where
  "fills_in_store st ord = list_all (\<lambda>fr. fr < length (fill_objs st)) (fills ord)"

text \<open>Every order object of the store passed the constructor's checks.\<close>

definition all_valid :: "store \<Rightarrow> bool" where
  "all_valid st = (\<forall>ord\<in>set (order_objs st). valid_order ord)"

text \<open>Every reference the book holds denotes an object of the store.\<close>

definition refs_ok :: "engine \<Rightarrow> bool" where
  "refs_ok e = (\<forall>r\<in>book_refs (book e). r < length (order_objs (objs e)))"

text \<open>Every order object of the store satisfies the invariant.\<close>

definition all_inv :: "store \<Rightarrow> bool" where
  "all_inv st = (\<forall>ord\<in>set (order_objs st). order_inv st ord \<and> fills_in_store st ord)"

text \<open>Every fill an order lists has a positive quantity.\<close>

definition fills_positive :: "store \<Rightarrow> Order \<Rightarrow> bool" where
  "fills_positive st ord = list_all (\<lambda>fr. 0 < fill_quantity (fill_objs st ! fr)) (fills ord)"

definition all_pos :: "store \<Rightarrow> bool" where
  "all_pos st =
     (\<forall>ord\<in>set (order_objs st).
        order_inv st ord \<and> fills_in_store st ord \<and> fills_positive st ord)"

text \<open>A cap is positive when there is one (the configuration allows a positive integer).\<close>

definition cap_positive :: "int option \<Rightarrow> bool" where
  "cap_positive cap = (case cap of None \<Rightarrow> True | Some c \<Rightarrow> 0 < c)"

fun positive_cap :: "op \<Rightarrow> bool" where
  "positive_cap (ProcessBar symb time price high low commission arg_cap) = cap_positive arg_cap"
| "positive_cap _ = True"

text \<open>
  An operation that leaves \<^verbatim>\<open>filled_qty\<close> at its default when it constructs an order.
\<close>

fun default_filled_qty :: "op \<Rightarrow> bool" where
  "default_filled_qty (NewOrder symb sd ty qty lmt stp created tmo fq uuid) = (fq = 0)"
| "default_filled_qty _ = True"

section \<open>PortfolioManager (src/portfolio/manager.py)\<close>

text \<open>
  \<^verbatim>\<open>_positions\<close> is a dict: an association list in insertion order. \<^verbatim>\<open>trade_history\<close>
  holds references to the fills, which are the objects the matching engine created.
\<close>

record Position =
  pos_quantity :: int
  avg_price :: real

record PortfolioManager =
  cash :: real
  max_leverage :: real
  positions :: "(symbol \<times> Position) list"
  trade_history :: "fref list"
  equity_history :: "(datetime \<times> real) list"

definition PortfolioManager_init :: "real \<Rightarrow> PortfolioManager" where
  "PortfolioManager_init starting_cash =
     \<lparr>cash = starting_cash, max_leverage = 2, positions = [], trade_history = [],
      equity_history = []\<rparr>"

text \<open>
  \<^verbatim>\<open>_positions.get(symbol, Position())\<close>, which is also what
  \<^verbatim>\<open>setdefault(symbol, Position())\<close> returns.
\<close>

definition position_of :: "PortfolioManager \<Rightarrow> symbol \<Rightarrow> Position" where
  "position_of pm symb =
     (case map_of (positions pm) symb of
        None \<Rightarrow> \<lparr>pos_quantity = 0, avg_price = 0\<rparr>
      | Some pos \<Rightarrow> pos)"

definition direction :: "FillEvent \<Rightarrow> int" where
  "direction fill = (if fill_type fill = BUY then 1 else - 1)"

definition apply_fill :: "store \<Rightarrow> PortfolioManager \<Rightarrow> fref \<Rightarrow> PortfolioManager" where
  "apply_fill st pm fr =
     (let fill = fill_objs st ! fr;
          pos = position_of pm (fill_symbol fill);
          new_qty = pos_quantity pos + direction fill * fill_quantity fill;
          new_avg =
            (if new_qty = 0 then 0
             else (avg_price pos * of_int \<bar>pos_quantity pos\<bar> +
                   fill_price fill * of_int (fill_quantity fill)) / of_int \<bar>new_qty\<bar>);
          trade_cost = fill_price fill * of_int (fill_quantity fill) + fill_commission fill
      in pm\<lparr>positions :=
               AList.update (fill_symbol fill) \<lparr>pos_quantity = new_qty, avg_price = new_avg\<rparr>
                 (positions pm),
             cash := cash pm - of_int (direction fill) * trade_cost,
             trade_history := trade_history pm @ [fr]\<rparr>)"

definition margin_used :: "PortfolioManager \<Rightarrow> real" where
  "margin_used pm = max (- cash pm) 0"

definition margin_limit :: "PortfolioManager \<Rightarrow> real \<Rightarrow> real" where
  "margin_limit pm equity = max (equity * (max_leverage pm - 1)) 0"

text \<open>\<open>prices\<close> is the dict of marks; \<^verbatim>\<open>prices.get(sym, 0.0)\<close> defaults to 0.\<close>

definition mark :: "(symbol \<rightharpoonup> real) \<Rightarrow> symbol \<Rightarrow> real" where
  "mark prices symb = (case prices symb of None \<Rightarrow> 0 | Some p \<Rightarrow> p)"

definition market_value :: "PortfolioManager \<Rightarrow> (symbol \<rightharpoonup> real) \<Rightarrow> real" where
  "market_value pm prices =
     sum_list (map (\<lambda>(symb, pos). of_int (pos_quantity pos) * mark prices symb) (positions pm))"

definition total_equity :: "PortfolioManager \<Rightarrow> (symbol \<rightharpoonup> real) \<Rightarrow> real" where
  "total_equity pm prices = cash pm + market_value pm prices"

text \<open>The signed quantity of a fill, and the signed sum of the fills on one symbol.\<close>

definition signed_sum :: "store \<Rightarrow> symbol \<Rightarrow> fref list \<Rightarrow> int" where
  "signed_sum st symb frs =
     sum_list (map (\<lambda>fr. direction (fill_objs st ! fr) * fill_quantity (fill_objs st ! fr))
       (filter (\<lambda>fr. fill_symbol (fill_objs st ! fr) = symb) frs))"

section \<open>PaperBroker (src/broker/paper.py)\<close>

record PaperBroker =
  latency :: timedelta
  slippage_pct :: real
  delay_queue :: "(datetime \<times> oref) list"
  order_book :: OrderBook
  portfolio :: PortfolioManager
  broker_fills :: "fref list"
  equity_curve :: "(datetime \<times> real) list"
  last_prices :: "(symbol \<times> real) list"

definition PaperBroker_init :: "real \<Rightarrow> timedelta \<Rightarrow> real \<Rightarrow> int option \<Rightarrow> PaperBroker" where
  "PaperBroker_init starting_cash lat slip cap =
     \<lparr>latency = lat, slippage_pct = slip, delay_queue = [],
      order_book = OrderBook_init cap, portfolio = PortfolioManager_init starting_cash,
      broker_fills = [], equity_curve = [], last_prices = []\<rparr>"

text \<open>
  \<^verbatim>\<open>submit_order(order, now)\<close>: \<open>utcnow\<close> is what \<^verbatim>\<open>datetime.utcnow()\<close> would return, used
  when \<^verbatim>\<open>now\<close> is \<^verbatim>\<open>None\<close> (a datetime is never falsy).
\<close>

definition submit_order :: "PaperBroker \<Rightarrow> oref \<Rightarrow> datetime option \<Rightarrow> datetime \<Rightarrow> PaperBroker" where
  "submit_order b r now utcnow =
     (let ts = (case now of Some t \<Rightarrow> t | None \<Rightarrow> utcnow);
          ready_ts = ts + latency b
      in b\<lparr>delay_queue := delay_queue b @ [(ready_ts, r)]\<rparr>)"

text \<open>
  The loop of \<^verbatim>\<open>cancel_order\<close> over the queue: the queue without the first entry whose
  order has the identifier, or \<open>None\<close> when the loop ends without finding one.
\<close>

fun remove_queued :: "store \<Rightarrow> string \<Rightarrow> (datetime \<times> oref) list \<Rightarrow> (datetime \<times> oref) list option" where
  "remove_queued st oid [] = None"
| "remove_queued st oid ((ts, r) # q) =
     (if order_id (order_objs st ! r) = oid then Some q
      else (case remove_queued st oid q of None \<Rightarrow> None | Some q' \<Rightarrow> Some ((ts, r) # q')))"

definition PaperBroker_cancel_order ::
  "store \<Rightarrow> PaperBroker \<Rightarrow> string \<Rightarrow> store \<times> PaperBroker \<times> bool" where
  "PaperBroker_cancel_order st b oid =
     (case remove_queued st oid (delay_queue b) of
        Some q' \<Rightarrow> (st, b\<lparr>delay_queue := q'\<rparr>, True)
      | None \<Rightarrow>
          (case OrderBook_cancel_order st (order_book b) oid of (st', res) \<Rightarrow> (st', b, res)))"

text \<open>
  The \<^verbatim>\<open>while\<close> loop of \<^verbatim>\<open>on_price_tick\<close>: it pops the head of the queue while the head
  is ready, and registers the popped order.
\<close>

fun flush_queue ::
  "store \<Rightarrow> datetime \<Rightarrow> (datetime \<times> oref) list \<Rightarrow> OrderBook \<Rightarrow> (datetime \<times> oref) list \<times> OrderBook" where
  "flush_queue st time [] ob = ([], ob)"
| "flush_queue st time ((ts, r) # q) ob =
     (if ts \<le> time then flush_queue st time q (add_order st ob r) else ((ts, r) # q, ob))"

text \<open>
  The body of \<^verbatim>\<open>if self.slippage_pct:\<close> on one fill: \<^verbatim>\<open>f.price *= 1 + slippage\<close> for a
  BUY, \<^verbatim>\<open>f.price *= 1 - slippage\<close> otherwise; an assignment to a field of the fill object.
\<close>

definition apply_slippage :: "real \<Rightarrow> FillEvent \<Rightarrow> FillEvent" where
  "apply_slippage s f =
     (if s \<noteq> 0 then
        (if fill_type f = BUY then f\<lparr>fill_price := fill_price f * (1 + s)\<rparr>
         else f\<lparr>fill_price := fill_price f * (1 - s)\<rparr>)
      else f)"

text \<open>
  The loop \<^verbatim>\<open>for f in fills\<close>: the fill object is updated in the store, then applied to
  the portfolio.
\<close>

fun settle_fills :: "real \<Rightarrow> fref list \<Rightarrow> store \<Rightarrow> PortfolioManager \<Rightarrow> store \<times> PortfolioManager" where
  "settle_fills s [] st pm = (st, pm)"
| "settle_fills s (fr # frs) st pm =
     (let st1 = st\<lparr>fill_objs := (fill_objs st)[fr := apply_slippage s (fill_objs st ! fr)]\<rparr>
      in settle_fills s frs st1 (apply_fill st1 pm fr))"

definition on_price_tick ::
  "store \<Rightarrow> PaperBroker \<Rightarrow> symbol \<Rightarrow> datetime \<Rightarrow> real \<Rightarrow> real \<Rightarrow> real \<Rightarrow> real \<Rightarrow>
   error + (store \<times> PaperBroker \<times> fref list)" where
  "on_price_tick st b symb time price high low commission =
     (let lp = AList.update symb price (last_prices b) in
      case flush_queue st time (delay_queue b) (order_book b) of
        (q', ob') \<Rightarrow>
          (case process_bar st ob' symb time price high low commission None of
             Inl e \<Rightarrow> Inl e
           | Inr (st1, fs) \<Rightarrow>
               (case settle_fills (slippage_pct b) fs st1 (portfolio b) of
                  (st2, pm') \<Rightarrow>
                    Inr (st2,
                         b\<lparr>last_prices := lp, delay_queue := q', order_book := ob',
                           portfolio := pm',
                           broker_fills := (if fs \<noteq> [] then broker_fills b @ fs
                                            else broker_fills b),
                           equity_curve :=
                             equity_curve b @ [(time, total_equity pm' (map_of lp))]\<rparr>,
                         fs))))"

definition reset :: "PaperBroker \<Rightarrow> PaperBroker" where
  "reset b =
     b\<lparr>delay_queue := [],
       order_book := OrderBook_init (max_qty_per_fill (order_book b)),
       portfolio := PortfolioManager_init (cash (portfolio b) + margin_used (portfolio b)),
       broker_fills := []\<rparr>"

definition pending_orders :: "store \<Rightarrow> PaperBroker \<Rightarrow> oref list" where
  "pending_orders st b =
     map snd (delay_queue b) @
     filter (\<lambda>r. is_open (order_objs st ! r)) (concat (map snd (orders (order_book b))))"

section \<open>BacktestEngine (src/backtesting/engine.py)\<close>

text \<open>
  A \<^verbatim>\<open>DataFrame\<close> of bars is the list of its rows, each under its index value (the index
  of a price series has no repeated timestamp and is in time order); a row has a
  \<^verbatim>\<open>Close\<close> and may have \<^verbatim>\<open>High\<close> and \<^verbatim>\<open>Low\<close>. A strategy is an external
  collaborator: what the engine uses of it is \<^verbatim>\<open>parameters.get("symbol")\<close> and
  \<^verbatim>\<open>generate_signals\<close>, taken here as a function of the frame it is given, to a dict from
  symbols to signal types. The fields of the engine carry the prefix \<open>bt_\<close>.
  \<open>now_of n\<close> and \<open>uuid_of n\<close> are the values \<^verbatim>\<open>datetime.utcnow()\<close> and \<^verbatim>\<open>uuid4().hex\<close>
  return when the \<open>n\<close>-th order object is constructed. The progress report only prints.
\<close>

record Bar =
  bar_close :: real
  bar_high :: "real option"
  bar_low :: "real option"

type_synonym frame = "(datetime \<times> Bar) list"

record Strategy =
  param_symbol :: "symbol option"
  generate_signals :: "frame \<Rightarrow> (symbol \<rightharpoonup> SignalType)"

record environment =
  now_of :: "nat \<Rightarrow> datetime"
  uuid_of :: "nat \<Rightarrow> string"

record BacktestEngine =
  bt_data :: "(symbol \<times> frame) list"
  bt_symbols :: "symbol list"
  bt_dates :: "datetime list"
  bt_strategies :: "Strategy list"
  bt_portfolio :: PortfolioManager
  bt_commission :: real
  bt_slippage_pct :: real
  bt_progress_interval :: int
  bt_order_book :: OrderBook

definition BacktestEngine_init ::
  "(symbol \<times> frame) list \<Rightarrow> Strategy list \<Rightarrow> real \<Rightarrow> real \<Rightarrow> real \<Rightarrow> int \<Rightarrow> BacktestEngine" where
  "BacktestEngine_init dat strats starting_cash comm slip progress =
     \<lparr>bt_data = dat, bt_symbols = map fst dat,
      bt_dates = sort (remdups (concat (map (\<lambda>(symb, df). map fst df) dat))),
      bt_strategies = strats, bt_portfolio = PortfolioManager_init starting_cash,
      bt_commission = comm, bt_slippage_pct = slip, bt_progress_interval = progress,
      bt_order_book = OrderBook_init None\<rparr>"

text \<open>
  \<^verbatim>\<open>self.data[symbol].loc[time]\<close> when \<^verbatim>\<open>time in df.index\<close>. The engine only asks for
  symbols of \<^verbatim>\<open>self.symbols\<close>, the keys of \<^verbatim>\<open>self.data\<close>.
\<close>

definition bar_at :: "BacktestEngine \<Rightarrow> symbol \<Rightarrow> datetime \<Rightarrow> Bar option" where
  "bar_at eng symb time =
     (case map_of (bt_data eng) symb of None \<Rightarrow> None | Some df \<Rightarrow> map_of df time)"

definition price_at :: "BacktestEngine \<Rightarrow> symbol \<Rightarrow> datetime \<Rightarrow> real option" where
  "price_at eng symb time =
     (case bar_at eng symb time of None \<Rightarrow> None | Some row \<Rightarrow> Some (bar_close row))"

text \<open>The market events of a timestamp: one for each symbol that has a bar there.\<close>

definition generate_market_events :: "BacktestEngine \<Rightarrow> datetime \<Rightarrow> (symbol \<times> real) list" where
  "generate_market_events eng time =
     concat (map (\<lambda>symb. case price_at eng symb time of None \<Rightarrow> [] | Some p \<Rightarrow> [(symb, p)])
       (bt_symbols eng))"

text \<open>
  \<^verbatim>\<open>_process_signals\<close> on the one signal it is given: a signal other than HOLD becomes a
  MARKET order for the fixed lot of 100, registered with the book.
\<close>

definition process_signals ::
  "environment \<Rightarrow> store \<Rightarrow> BacktestEngine \<Rightarrow> symbol \<Rightarrow> SignalType \<Rightarrow>
   error + (store \<times> BacktestEngine)" where
  "process_signals env st eng symb sig_type =
     (if sig_type = HOLD then Inr (st, eng)
      else
        case Order_init symb sig_type MARKET 100 None None
               (now_of env (length (order_objs st))) None 0
               (uuid_of env (length (order_objs st))) of
          Inl e \<Rightarrow> Inl e
        | Inr ord \<Rightarrow>
            (case new_order st ord of
               (st', r) \<Rightarrow> Inr (st', eng\<lparr>bt_order_book := add_order st' (bt_order_book eng) r\<rparr>)))"

text \<open>
  The symbols a strategy is asked about: the set
  \<^verbatim>\<open>{strat.parameters.get("symbol", sym) for sym in self.symbols}\<close>, iterated here in list
  order (Python iterates a set of strings in an order of its own).
\<close>

definition required_syms :: "Strategy \<Rightarrow> symbol list \<Rightarrow> symbol list" where
  "required_syms strat syms =
     (case param_symbol strat of
        None \<Rightarrow> remdups syms
      | Some s \<Rightarrow> if syms = [] then [] else [s])"

text \<open>
  The inner loop of step 2: \<^verbatim>\<open>self.data[sym]\<close> raises \<^verbatim>\<open>KeyError\<close> for a symbol the data
  does not have; \<^verbatim>\<open>.loc[:dt]\<close> keeps the rows up to and including \<open>dt\<close>.
\<close>

fun signals_for ::
  "environment \<Rightarrow> Strategy \<Rightarrow> datetime \<Rightarrow> symbol list \<Rightarrow> store \<Rightarrow> BacktestEngine \<Rightarrow>
   error + (store \<times> BacktestEngine)" where
  "signals_for env strat dt [] st eng = Inr (st, eng)"
| "signals_for env strat dt (symb # rest) st eng =
     (case map_of (bt_data eng) symb of
        None \<Rightarrow> Inl KeyError
      | Some df \<Rightarrow>
          (case generate_signals strat (filter (\<lambda>row. fst row \<le> dt) df) symb of
             None \<Rightarrow> signals_for env strat dt rest st eng
           | Some sig_type \<Rightarrow>
               (case process_signals env st eng symb sig_type of
                  Inl e \<Rightarrow> Inl e
                | Inr (st', eng') \<Rightarrow> signals_for env strat dt rest st' eng')))"

fun run_strategies ::
  "environment \<Rightarrow> datetime \<Rightarrow> Strategy list \<Rightarrow> store \<Rightarrow> BacktestEngine \<Rightarrow>
   error + (store \<times> BacktestEngine)" where
  "run_strategies env dt [] st eng = Inr (st, eng)"
| "run_strategies env dt (strat # rest) st eng =
     (case signals_for env strat dt (required_syms strat (bt_symbols eng)) st eng of
        Inl e \<Rightarrow> Inl e
      | Inr (st', eng') \<Rightarrow> run_strategies env dt rest st' eng')"

text \<open>
  \<^verbatim>\<open>_execute_orders\<close>: one matching pass for each symbol that has a bar at \<open>dt\<close>, the fills
  going to the portfolio. \<^verbatim>\<open>High\<close> and \<^verbatim>\<open>Low\<close> default to the close.
\<close>

fun execute_orders ::
  "datetime \<Rightarrow> symbol list \<Rightarrow> store \<Rightarrow> BacktestEngine \<Rightarrow> error + (store \<times> BacktestEngine)" where
  "execute_orders dt [] st eng = Inr (st, eng)"
| "execute_orders dt (symb # rest) st eng =
     (case bar_at eng symb dt of
        None \<Rightarrow> execute_orders dt rest st eng
      | Some row \<Rightarrow>
          (let close = bar_close row;
               high = (case bar_high row of None \<Rightarrow> close | Some h \<Rightarrow> h);
               low = (case bar_low row of None \<Rightarrow> close | Some l \<Rightarrow> l)
           in case process_bar st (bt_order_book eng) symb dt close high low
                     (bt_commission eng) None of
                Inl e \<Rightarrow> Inl e
              | Inr (st', fs) \<Rightarrow>
                  execute_orders dt rest st'
                    (eng\<lparr>bt_portfolio := foldl (apply_fill st') (bt_portfolio eng) fs\<rparr>)))"

text \<open>
  The marks of step 4:
  \<^verbatim>\<open>{sym: self._price_at(sym, dt) or 0.0 for sym in self.symbols}\<close>.
\<close>

definition prices_now :: "BacktestEngine \<Rightarrow> datetime \<Rightarrow> (symbol \<rightharpoonup> real)" where
  "prices_now eng dt =
     (\<lambda>symb. if symb \<in> set (bt_symbols eng)
             then Some (case price_at eng symb dt of None \<Rightarrow> 0 | Some p \<Rightarrow> p)
             else None)"

text \<open>One iteration of the loop of \<^verbatim>\<open>run\<close>; \<open>curve\<close> is the list \<^verbatim>\<open>equity_curve\<close>.\<close>

definition run_step ::
  "environment \<Rightarrow> datetime \<Rightarrow> store \<times> BacktestEngine \<times> (datetime \<times> real) list \<Rightarrow>
   error + (store \<times> BacktestEngine \<times> (datetime \<times> real) list)" where
  "run_step env dt s =
     (case s of
        (st, eng, curve) \<Rightarrow>
          if generate_market_events eng dt = [] then Inr (st, eng, curve)
          else
            (case run_strategies env dt (bt_strategies eng) st eng of
               Inl e \<Rightarrow> Inl e
             | Inr (st1, eng1) \<Rightarrow>
                 (case execute_orders dt (bt_symbols eng1) st1 eng1 of
                    Inl e \<Rightarrow> Inl e
                  | Inr (st2, eng2) \<Rightarrow>
                      Inr (st2, eng2,
                           curve @
                           [(dt, total_equity (bt_portfolio eng2) (prices_now eng2 dt))]))))"

fun run_dates ::
  "environment \<Rightarrow> datetime list \<Rightarrow> store \<times> BacktestEngine \<times> (datetime \<times> real) list \<Rightarrow>
   error + (store \<times> BacktestEngine \<times> (datetime \<times> real) list)" where
  "run_dates env [] s = Inr s"
| "run_dates env (dt # dts) s =
     (case run_step env dt s of Inl e \<Rightarrow> Inl e | Inr s' \<Rightarrow> run_dates env dts s')"

definition run ::
  "environment \<Rightarrow> store \<Rightarrow> BacktestEngine \<Rightarrow>
   error + (store \<times> BacktestEngine \<times> (datetime \<times> real) list)" where
  "run env st eng = run_dates env (bt_dates eng) (st, eng, [])"

text \<open>The most recent close of a symbol at or before a timestamp, if it has one.\<close>

definition last_close :: "BacktestEngine \<Rightarrow> symbol \<Rightarrow> datetime \<Rightarrow> real option" where
  "last_close eng symb dt =
     (case map_of (bt_data eng) symb of
        None \<Rightarrow> None
      | Some df \<Rightarrow>
          (case filter (\<lambda>row. fst row \<le> dt) df of
             [] \<Rightarrow> None
           | rows \<Rightarrow> Some (bar_close (snd (last rows)))))"

section \<open>Example states\<close>

text \<open>A LIMIT BUY for 100 at 95, alone in the book.\<close>

definition limit_buy_95 :: Order where
  "limit_buy_95 =
     \<lparr>symbol = ''AAPL'', side = BUY, order_type = LIMIT, quantity = 100,
      limit_price = Some 95, stop_price = None, created_at = 0, timeout = None,
      order_id = ''a1'', filled_qty = 0, status = PENDING, fills = []\<rparr>"

definition limit_store :: store where
  "limit_store = fst (new_order empty_store limit_buy_95)"

definition limit_book :: OrderBook where
  "limit_book = add_order limit_store (OrderBook_init None) 0"

text \<open>
  The partial-fill scenario of \<^verbatim>\<open>tests/test_order_management.py\<close>: a book with
  \<^verbatim>\<open>max_qty_per_fill=50\<close>, a MARKET SELL for 120, and the state after the first bar.
\<close>

definition sell_120_ops :: "op list" where
  "sell_120_ops =
     [NewOrder ''AAPL'' SELL MARKET 120 None None 0 None 0 ''s1'', AddOrder 0,
      ProcessBar ''AAPL'' 1 100 101 99 0 None]"

definition sell_120_after_bar1 :: engine where
  "sell_120_after_bar1 =
     \<lparr>objs = \<lparr>order_objs =
                [\<lparr>symbol = ''AAPL'', side = SELL, order_type = MARKET, quantity = 120,
                  limit_price = None, stop_price = None, created_at = 0, timeout = None,
                  order_id = ''s1'', filled_qty = 50, status = PARTIALLY_FILLED,
                  fills = [0]\<rparr>],
              fill_objs =
                [\<lparr>fill_symbol = ''AAPL'', fill_time = 1, fill_type = SELL,
                  fill_quantity = 50, fill_price = 100, fill_commission = 0\<rparr>]\<rparr>,
      book = \<lparr>orders = [(''AAPL'', [0])], history = [0], max_qty_per_fill = Some 50\<rparr>\<rparr>"

text \<open>
  Two fills on one symbol, as in \<^verbatim>\<open>tests/test_portfolio_manager.py\<close>: a BUY of 10 at 100
  and a SELL of 4 at 110, each with commission 1.
\<close>

definition ledger_store :: store where
  "ledger_store =
     \<lparr>order_objs = [],
      fill_objs =
        [\<lparr>fill_symbol = ''AAPL'', fill_time = 1, fill_type = BUY, fill_quantity = 10,
          fill_price = 100, fill_commission = 1\<rparr>,
         \<lparr>fill_symbol = ''AAPL'', fill_time = 2, fill_type = SELL, fill_quantity = 4,
          fill_price = 110, fill_commission = 1\<rparr>]\<rparr>"

text \<open>
  A broker with 100 in cash, no latency and no slippage, and a MARKET BUY for 2 submitted to
  it: filled at 100, the purchase costs 200 and leaves a margin loan.
\<close>

definition margin_store :: store where
  "margin_store =
     \<lparr>order_objs =
        [\<lparr>symbol = ''AAPL'', side = BUY, order_type = MARKET, quantity = 2,
          limit_price = None, stop_price = None, created_at = 0, timeout = None,
          order_id = ''m1'', filled_qty = 0, status = PENDING, fills = []\<rparr>],
      fill_objs = []\<rparr>"

definition margin_broker :: PaperBroker where
  "margin_broker = submit_order (PaperBroker_init 100 0 0 None) 0 (Some 0) 0"

text \<open>
  The broker of \<^verbatim>\<open>tests/test_paper_broker.py\<close> (latency 60 s, slippage 0.001), with the
  LIMIT order above submitted at time 0. Times are in seconds here.
\<close>

definition queued_broker :: PaperBroker where
  "queued_broker = submit_order (PaperBroker_init 100000 60 (1 / 1000) None) 0 (Some 0) 0"

text \<open>
  Two MARKET BUY orders for 10, and a broker with latency 10 that received the first at
  time 100 and then the second at time 50: the queue is not in the order of the ready
  times.
\<close>

definition two_orders_store :: store where
  "two_orders_store =
     \<lparr>order_objs =
        [\<lparr>symbol = ''AAPL'', side = BUY, order_type = MARKET, quantity = 10,
          limit_price = None, stop_price = None, created_at = 0, timeout = None,
          order_id = ''t1'', filled_qty = 0, status = PENDING, fills = []\<rparr>,
         \<lparr>symbol = ''AAPL'', side = BUY, order_type = MARKET, quantity = 10,
          limit_price = None, stop_price = None, created_at = 0, timeout = None,
          order_id = ''t2'', filled_qty = 0, status = PENDING, fills = []\<rparr>],
      fill_objs = []\<rparr>"

definition out_of_order_broker :: PaperBroker where
  "out_of_order_broker =
     submit_order (submit_order (PaperBroker_init 100000 10 0 None) 0 (Some 100) 0)
       1 (Some 50) 0"


text \<open>
  Two series that are not aligned: A has bars at 1 and 2, B only at 1 (close 10). The
  strategy asks for B and always answers BUY for it. Starting cash 10000, commission 1.
\<close>

definition sparse_data :: "(symbol \<times> frame) list" where
  "sparse_data =
     [(''A'', [(1, \<lparr>bar_close = 5, bar_high = None, bar_low = None\<rparr>),
               (2, \<lparr>bar_close = 6, bar_high = None, bar_low = None\<rparr>)]),
      (''B'', [(1, \<lparr>bar_close = 10, bar_high = None, bar_low = None\<rparr>)])]"

definition buy_b :: Strategy where
  "buy_b = \<lparr>param_symbol = Some ''B'', generate_signals = (\<lambda>df. [''B'' \<mapsto> BUY])\<rparr>"

definition sparse_engine :: BacktestEngine where
  "sparse_engine = BacktestEngine_init sparse_data [buy_b] 10000 1 0 100"

definition fixed_env :: environment where
  "fixed_env = \<lparr>now_of = (\<lambda>n. 0), uuid_of = (\<lambda>n. ''u'')\<rparr>"

text \<open>The configuration of an engine: what \<^verbatim>\<open>run\<close> never assigns to.\<close>

definition same_config :: "BacktestEngine \<Rightarrow> BacktestEngine \<Rightarrow> bool" where
  "same_config eng eng' =
     (bt_data eng' = bt_data eng \<and> bt_symbols eng' = bt_symbols eng \<and>
      bt_dates eng' = bt_dates eng \<and> bt_strategies eng' = bt_strategies eng \<and>
      bt_commission eng' = bt_commission eng)"

section \<open>The matching pass\<close>

lemma maybe_timeout_closed: "\<not> is_open ord \<Longrightarrow> maybe_timeout ord time = ord"
  by (simp add: maybe_timeout_def split: option.splits)

lemma process_order_match:
  "process_order symb time price high low commission arg_cap book_cap st r =
     (case match_order symb time price high low commission arg_cap book_cap
             (length (fill_objs st)) (order_objs st ! r) of
        Inl e \<Rightarrow> Inl e
      | Inr (ord', None) \<Rightarrow> Inr (st\<lparr>order_objs := (order_objs st)[r := ord']\<rparr>, [])
      | Inr (ord', Some fill) \<Rightarrow>
          Inr (st\<lparr>order_objs := (order_objs st)[r := ord'],
                  fill_objs := fill_objs st @ [fill]\<rparr>, [length (fill_objs st)]))"
  by (auto simp: process_order_def match_order_def Let_def maybe_timeout_closed
      split: sum.splits option.splits)

lemma process_order_frame:
  assumes "process_order symb time price high low commission arg_cap book_cap st r = Inr (st', new)"
  shows "length (order_objs st') = length (order_objs st)"
    and "r' \<noteq> r \<Longrightarrow> order_objs st' ! r' = order_objs st ! r'"
    and "\<exists>ext. fill_objs st' = fill_objs st @ ext \<and>
           new = [length (fill_objs st) ..< length (fill_objs st) + length ext]"
  using assms
  by (auto simp: process_order_match split: sum.splits option.splits prod.splits)

lemma process_orders_frame:
  "process_orders symb time price high low commission arg_cap book_cap rs st fs = Inr (st', fs') \<Longrightarrow>
     length (order_objs st') = length (order_objs st) \<and>
     (\<forall>r'. r' \<notin> set rs \<longrightarrow> order_objs st' ! r' = order_objs st ! r') \<and>
     (\<exists>ext. fill_objs st' = fill_objs st @ ext \<and>
        fs' = fs @ [length (fill_objs st) ..< length (fill_objs st) + length ext])"
proof (induction rs arbitrary: st fs)
  case Nil
  then show ?case by simp
next
  case (Cons r rs)
  from Cons.prems obtain st1 new where
    step: "process_order symb time price high low commission arg_cap book_cap st r = Inr (st1, new)"
    and rest: "process_orders symb time price high low commission arg_cap book_cap rs st1 (fs @ new) = Inr (st', fs')"
    by (auto split: sum.splits)
  from process_order_frame[OF step] obtain ext1 where
    l1: "length (order_objs st1) = length (order_objs st)"
    and o1: "\<And>r'. r' \<noteq> r \<Longrightarrow> order_objs st1 ! r' = order_objs st ! r'"
    and f1: "fill_objs st1 = fill_objs st @ ext1"
    and n1: "new = [length (fill_objs st) ..< length (fill_objs st) + length ext1]"
    by blast
  from Cons.IH[OF rest] obtain ext2 where
    l2: "length (order_objs st') = length (order_objs st1)"
    and o2: "\<And>r'. r' \<notin> set rs \<Longrightarrow> order_objs st' ! r' = order_objs st1 ! r'"
    and f2: "fill_objs st' = fill_objs st1 @ ext2"
    and n2: "fs' = (fs @ new) @ [length (fill_objs st1) ..< length (fill_objs st1) + length ext2]"
    by blast
  have len1: "length (fill_objs st1) = length (fill_objs st) + length ext1"
    using f1 by simp
  have ext: "fill_objs st' = fill_objs st @ (ext1 @ ext2)" using f1 f2 by simp
  have "[length (fill_objs st) ..< length (fill_objs st) + length ext1 + length ext2] =
        [length (fill_objs st) ..< length (fill_objs st) + length ext1] @
        [length (fill_objs st) + length ext1 ..< length (fill_objs st) + length ext1 + length ext2]"
    by (rule upt_add_eq_append) simp
  then have refs: "fs' = fs @ [length (fill_objs st) ..< length (fill_objs st) + length (ext1 @ ext2)]"
    using n1 n2 len1 by (simp only: append_assoc length_append add.assoc)
  have len: "length (order_objs st') = length (order_objs st)" using l1 l2 by simp
  have others: "\<forall>r'. r' \<notin> set (r # rs) \<longrightarrow> order_objs st' ! r' = order_objs st ! r'"
    using o1 o2 by simp
  show ?case using len others ext refs by blast
qed


lemma process_order_visit:
  assumes "process_order symb time price high low commission arg_cap book_cap st r = Inr (st', new)"
    and "r < length (order_objs st)"
  shows "case match_order symb time price high low commission arg_cap book_cap
                (length (fill_objs st)) (order_objs st ! r) of
           Inl e \<Rightarrow> False
         | Inr (ord', None) \<Rightarrow> order_objs st' ! r = ord' \<and> new = []
         | Inr (ord', Some f) \<Rightarrow>
             order_objs st' ! r = ord' \<and> new = [length (fill_objs st)] \<and>
             length (fill_objs st) < length (fill_objs st') \<and>
             fill_objs st' ! length (fill_objs st) = f"
  using assms
  by (auto simp: process_order_match split: sum.splits option.splits prod.splits)

lemma process_orders_visit:
  assumes "process_orders symb time price high low commission arg_cap book_cap rs st fs = Inr (st', fs')"
    and "distinct rs" and "r \<in> set rs" and "r < length (order_objs st)"
  shows "\<exists>n\<ge>length (fill_objs st).
           (case match_order symb time price high low commission arg_cap book_cap n
                   (order_objs st ! r) of
              Inl e \<Rightarrow> False
            | Inr (ord', None) \<Rightarrow> order_objs st' ! r = ord'
            | Inr (ord', Some f) \<Rightarrow>
                order_objs st' ! r = ord' \<and> n \<in> set fs' \<and>
                n < length (fill_objs st') \<and> fill_objs st' ! n = f)"
  using assms
proof (induction rs arbitrary: st fs)
  case Nil
  then show ?case by simp
next
  case (Cons a rs)
  from Cons.prems(1) obtain st1 new where
    step: "process_order symb time price high low commission arg_cap book_cap st a = Inr (st1, new)"
    and rest: "process_orders symb time price high low commission arg_cap book_cap rs st1 (fs @ new) = Inr (st', fs')"
    by (auto split: sum.splits)
  from process_order_frame[OF step] obtain ext1 where
    l1: "length (order_objs st1) = length (order_objs st)"
    and o1: "\<And>r'. r' \<noteq> a \<Longrightarrow> order_objs st1 ! r' = order_objs st ! r'"
    and f1: "fill_objs st1 = fill_objs st @ ext1"
    by blast
  from process_orders_frame[OF rest] obtain ext2 where
    o2: "\<And>r'. r' \<notin> set rs \<Longrightarrow> order_objs st' ! r' = order_objs st1 ! r'"
    and f2: "fill_objs st' = fill_objs st1 @ ext2"
    and n2: "fs' = (fs @ new) @ [length (fill_objs st1) ..< length (fill_objs st1) + length ext2]"
    by blast
  show ?case
  proof (cases "r = a")
    case True
    then have notin: "r \<notin> set rs" using Cons.prems(2) by simp
    have same: "order_objs st' ! r = order_objs st1 ! r" using o2[OF notin] .
    have keep: "\<And>k. k < length (fill_objs st1) \<Longrightarrow> fill_objs st' ! k = fill_objs st1 ! k"
      using f2 by (simp add: nth_append)
    have longer: "length (fill_objs st1) \<le> length (fill_objs st')" using f2 by simp
    have sub: "set new \<subseteq> set fs'" using n2 by auto
    from process_order_visit[OF step[unfolded True[symmetric]] Cons.prems(4)]
    have "case match_order symb time price high low commission arg_cap book_cap
                (length (fill_objs st)) (order_objs st ! r) of
           Inl e \<Rightarrow> False
         | Inr (ord', None) \<Rightarrow> order_objs st' ! r = ord'
         | Inr (ord', Some f) \<Rightarrow>
             order_objs st' ! r = ord' \<and> length (fill_objs st) \<in> set fs' \<and>
             length (fill_objs st) < length (fill_objs st') \<and>
             fill_objs st' ! length (fill_objs st) = f"
      using same keep longer sub
      by (auto split: sum.splits option.splits prod.splits)
    then show ?thesis by blast
  next
    case False
    then have inr: "r \<in> set rs" using Cons.prems(3) by simp
    have d: "distinct rs" using Cons.prems(2) by simp
    have lt: "r < length (order_objs st1)" using l1 Cons.prems(4) by simp
    from Cons.IH[OF rest d inr lt] obtain n where
      n: "length (fill_objs st1) \<le> n"
      and c: "case match_order symb time price high low commission arg_cap book_cap n
                   (order_objs st1 ! r) of
              Inl e \<Rightarrow> False
            | Inr (ord', None) \<Rightarrow> order_objs st' ! r = ord'
            | Inr (ord', Some f) \<Rightarrow>
                order_objs st' ! r = ord' \<and> n \<in> set fs' \<and>
                n < length (fill_objs st') \<and> fill_objs st' ! n = f"
      by blast
    have "length (fill_objs st) \<le> n" using n f1 by simp
    moreover have "order_objs st1 ! r = order_objs st ! r" using o1[OF False] .
    ultimately show ?thesis using c by auto
  qed
qed


lemma maybe_timeout_fields [simp]:
  "side (maybe_timeout ord time) = side ord"
  "order_type (maybe_timeout ord time) = order_type ord"
  "limit_price (maybe_timeout ord time) = limit_price ord"
  "stop_price (maybe_timeout ord time) = stop_price ord"
  "quantity (maybe_timeout ord time) = quantity ord"
  "filled_qty (maybe_timeout ord time) = filled_qty ord"
  "fills (maybe_timeout ord time) = fills ord"
  "symbol (maybe_timeout ord time) = symbol ord"
  "order_id (maybe_timeout ord time) = order_id ord"
  by (simp_all add: maybe_timeout_def split: option.splits)

lemma valid_order_maybe_timeout [simp]:
  "valid_order (maybe_timeout ord time) = valid_order ord"
  by (simp add: valid_order_def)

lemma valid_order_record_fill [simp]:
  "valid_order (record_fill ord fr q) = valid_order ord"
  by (simp add: valid_order_def record_fill_def Let_def)

lemma fill_price_of_valid:
  "valid_order ord \<Longrightarrow> \<exists>po. fill_price_of ord price high low = Inr po"
  by (auto simp: fill_price_of_def valid_order_def split: OrderType.splits option.splits)

lemma match_order_valid:
  assumes "valid_order ord"
  shows "\<exists>ord' fo. match_order symb time price high low commission arg_cap book_cap n ord = Inr (ord', fo)
           \<and> valid_order ord'"
proof -
  from assms have "valid_order (maybe_timeout ord time)" by simp
  from fill_price_of_valid[OF this] obtain po where
    "fill_price_of (maybe_timeout ord time) price high low = Inr po" by blast
  then show ?thesis using assms
    by (cases po) (simp_all add: match_order_def)
qed

lemma process_order_valid:
  assumes "valid_order (order_objs st ! r)" and "r < length (order_objs st)"
  shows "\<exists>st' new. process_order symb time price high low commission arg_cap book_cap st r = Inr (st', new)
           \<and> valid_order (order_objs st' ! r)"
proof -
  from match_order_valid[OF assms(1)] obtain ord' fo where
    m: "match_order symb time price high low commission arg_cap book_cap
          (length (fill_objs st)) (order_objs st ! r) = Inr (ord', fo)"
    and v: "valid_order ord'" by blast
  show ?thesis using m v assms(2)
    by (cases fo) (simp_all add: process_order_match)
qed

lemma process_orders_valid:
  assumes "\<forall>r\<in>set rs. r < length (order_objs st) \<and> valid_order (order_objs st ! r)"
  shows "\<exists>st' fs'. process_orders symb time price high low commission arg_cap book_cap rs st fs = Inr (st', fs')"
  using assms
proof (induction rs arbitrary: st fs)
  case Nil
  then show ?case by simp
next
  case (Cons a rs)
  then have a: "a < length (order_objs st)" "valid_order (order_objs st ! a)" by simp_all
  from process_order_valid[OF a(2) a(1)] obtain st1 new where
    step: "process_order symb time price high low commission arg_cap book_cap st a = Inr (st1, new)"
    and va: "valid_order (order_objs st1 ! a)" by blast
  from process_order_frame[OF step] have
    l1: "length (order_objs st1) = length (order_objs st)"
    and o1: "\<And>r'. r' \<noteq> a \<Longrightarrow> order_objs st1 ! r' = order_objs st ! r'"
    by blast+
  have "\<forall>r\<in>set rs. r < length (order_objs st1) \<and> valid_order (order_objs st1 ! r)"
  proof
    fix r assume r: "r \<in> set rs"
    with Cons.prems have "r < length (order_objs st)" "valid_order (order_objs st ! r)" by simp_all
    then show "r < length (order_objs st1) \<and> valid_order (order_objs st1 ! r)"
      using l1 o1[of r] va by (cases "r = a") simp_all
  qed
  from Cons.IH[OF this] obtain st' fs' where
    "process_orders symb time price high low commission arg_cap book_cap rs st1 (fs @ new) = Inr (st', fs')"
    by blast
  then show ?case using step by simp
qed

lemma match_order_limit:
  assumes "order_type ord = LIMIT" and "limit_price ord = Some lmt"
    and "is_open (maybe_timeout ord time)"
  shows "match_order symb time price high low commission arg_cap book_cap n ord =
     (if side ord = BUY \<and> low \<le> lmt \<or> side ord = SELL \<and> high \<ge> lmt then
        Inr (record_fill (maybe_timeout ord time) n (fill_qty (maybe_timeout ord time) arg_cap book_cap),
             Some \<lparr>fill_symbol = symb, fill_time = time, fill_type = side ord,
                   fill_quantity = fill_qty (maybe_timeout ord time) arg_cap book_cap,
                   fill_price = (if side ord = BUY then min lmt price else max lmt price),
                   fill_commission = commission\<rparr>)
      else Inr (maybe_timeout ord time, None))"
  using assms by (auto simp: match_order_def fill_price_of_def)


lemma fills_record_fill [simp]: "fills (record_fill ord fr q) = fills ord @ [fr]"
  by (simp add: record_fill_def Let_def)

text \<open>
  Claim C6. In \<^verbatim>\<open>process_bar\<close>, for a book that holds each order of the symbol once and
  only constructed orders: a LIMIT order that is open when the loop looks at it (open after
  the lazy timeout evaluation) gets a fill on this bar if and only if the bar's low is at
  most the limit (BUY), respectively the bar's high is at least the limit (SELL); the fill's
  price is \<open>min limit close\<close> for a BUY and \<open>max limit close\<close> for a SELL; otherwise the
  order object is left as the timeout evaluation left it: open, with no fill added.
\<close>

theorem limit_order_fill_rule:
  assumes wf: "\<forall>r'\<in>set (orders_of ob symb).
                 r' < length (order_objs st) \<and> valid_order (order_objs st ! r')"
    and d: "distinct (orders_of ob symb)"
    and r: "r \<in> set (orders_of ob symb)"
    and ty: "order_type (order_objs st ! r) = LIMIT"
    and lp: "limit_price (order_objs st ! r) = Some lmt"
    and op: "is_open (maybe_timeout (order_objs st ! r) time)"
  shows "\<exists>st' fs. process_bar st ob symb time price high low commission arg_cap = Inr (st', fs) \<and>
     (side (order_objs st ! r) = BUY \<longrightarrow>
        ((fills (order_objs st' ! r) \<noteq> fills (order_objs st ! r)) = (low \<le> lmt)) \<and>
        (low \<le> lmt \<longrightarrow>
           (\<exists>fr\<in>set fs. length (fill_objs st) \<le> fr \<and> fr < length (fill_objs st') \<and>
              fills (order_objs st' ! r) = fills (order_objs st ! r) @ [fr] \<and>
              fill_price (fill_objs st' ! fr) = min lmt price)) \<and>
        (\<not> low \<le> lmt \<longrightarrow>
           order_objs st' ! r = maybe_timeout (order_objs st ! r) time \<and>
           is_open (order_objs st' ! r))) \<and>
     (side (order_objs st ! r) = SELL \<longrightarrow>
        ((fills (order_objs st' ! r) \<noteq> fills (order_objs st ! r)) = (high \<ge> lmt)) \<and>
        (high \<ge> lmt \<longrightarrow>
           (\<exists>fr\<in>set fs. length (fill_objs st) \<le> fr \<and> fr < length (fill_objs st') \<and>
              fills (order_objs st' ! r) = fills (order_objs st ! r) @ [fr] \<and>
              fill_price (fill_objs st' ! fr) = max lmt price)) \<and>
        (\<not> high \<ge> lmt \<longrightarrow>
           order_objs st' ! r = maybe_timeout (order_objs st ! r) time \<and>
           is_open (order_objs st' ! r)))"
proof -
  from process_orders_valid[OF wf] obtain st' fs where
    run: "process_orders symb time price high low commission arg_cap (max_qty_per_fill ob)
            (orders_of ob symb) st [] = Inr (st', fs)"
    by blast
  have lt: "r < length (order_objs st)" using wf r by blast
  from process_orders_visit[OF run d r lt] obtain n where
    n: "length (fill_objs st) \<le> n"
    and c: "case match_order symb time price high low commission arg_cap (max_qty_per_fill ob) n
                   (order_objs st ! r) of
              Inl e \<Rightarrow> False
            | Inr (ord', None) \<Rightarrow> order_objs st' ! r = ord'
            | Inr (ord', Some f) \<Rightarrow>
                order_objs st' ! r = ord' \<and> n \<in> set fs \<and>
                n < length (fill_objs st') \<and> fill_objs st' ! n = f"
    by blast
  note m = match_order_limit[OF ty lp op, of symb price high low commission arg_cap
      "max_qty_per_fill ob" n]
  have buy: "side (order_objs st ! r) = BUY \<Longrightarrow> low \<le> lmt \<Longrightarrow>
      n \<in> set fs \<and> n < length (fill_objs st') \<and>
      fills (order_objs st' ! r) = fills (order_objs st ! r) @ [n] \<and>
      fill_price (fill_objs st' ! n) = min lmt price"
    using c m by simp
  have buy_no: "side (order_objs st ! r) = BUY \<Longrightarrow> \<not> low \<le> lmt \<Longrightarrow>
      order_objs st' ! r = maybe_timeout (order_objs st ! r) time"
    using c m by simp
  have sell: "side (order_objs st ! r) = SELL \<Longrightarrow> high \<ge> lmt \<Longrightarrow>
      n \<in> set fs \<and> n < length (fill_objs st') \<and>
      fills (order_objs st' ! r) = fills (order_objs st ! r) @ [n] \<and>
      fill_price (fill_objs st' ! n) = max lmt price"
    using c m by simp
  have sell_no: "side (order_objs st ! r) = SELL \<Longrightarrow> \<not> high \<ge> lmt \<Longrightarrow>
      order_objs st' ! r = maybe_timeout (order_objs st ! r) time"
    using c m by simp
  have "process_bar st ob symb time price high low commission arg_cap = Inr (st', fs)"
    using run by (simp add: process_bar_def)
  moreover have "side (order_objs st ! r) = BUY \<longrightarrow>
        ((fills (order_objs st' ! r) \<noteq> fills (order_objs st ! r)) = (low \<le> lmt)) \<and>
        (low \<le> lmt \<longrightarrow>
           (\<exists>fr\<in>set fs. length (fill_objs st) \<le> fr \<and> fr < length (fill_objs st') \<and>
              fills (order_objs st' ! r) = fills (order_objs st ! r) @ [fr] \<and>
              fill_price (fill_objs st' ! fr) = min lmt price)) \<and>
        (\<not> low \<le> lmt \<longrightarrow>
           order_objs st' ! r = maybe_timeout (order_objs st ! r) time \<and>
           is_open (order_objs st' ! r))"
    using buy buy_no n op by (cases "low \<le> lmt") auto
  moreover have "side (order_objs st ! r) = SELL \<longrightarrow>
        ((fills (order_objs st' ! r) \<noteq> fills (order_objs st ! r)) = (high \<ge> lmt)) \<and>
        (high \<ge> lmt \<longrightarrow>
           (\<exists>fr\<in>set fs. length (fill_objs st) \<le> fr \<and> fr < length (fill_objs st') \<and>
              fills (order_objs st' ! r) = fills (order_objs st ! r) @ [fr] \<and>
              fill_price (fill_objs st' ! fr) = max lmt price)) \<and>
        (\<not> high \<ge> lmt \<longrightarrow>
           order_objs st' ! r = maybe_timeout (order_objs st ! r) time \<and>
           is_open (order_objs st' ! r))"
    using sell sell_no n op by (cases "high \<ge> lmt") auto
  ultimately show ?thesis by blast
qed


lemma limit_buy_95_constructed:
  "Order_init ''AAPL'' BUY LIMIT 100 (Some 95) None 0 None 0 ''a1'' = Inr limit_buy_95"
  by (simp add: Order_init_def limit_buy_95_def)

lemma limit_store_simps:
  "order_objs limit_store = [limit_buy_95]" "fill_objs limit_store = []"
  by (simp_all add: limit_store_def new_order_def empty_store_def)

lemma limit_book_orders: "orders_of limit_book ''AAPL'' = [0]"
  by (simp add: limit_book_def add_order_def OrderBook_init_def orders_of_def
      limit_store_simps limit_buy_95_def)

theorem limit_order_fill_rule_witness:
  "(\<exists>st' fs. process_bar limit_store limit_book ''AAPL'' 0 93 96 94 0 None = Inr (st', fs) \<and>
      (\<exists>fr\<in>set fs. fills (order_objs st' ! 0) = [fr] \<and> fill_price (fill_objs st' ! fr) = 93)) \<and>
   (\<exists>st' fs. process_bar limit_store limit_book ''AAPL'' 0 100 100 96 0 None = Inr (st', fs) \<and>
      fills (order_objs st' ! 0) = [] \<and> status (order_objs st' ! 0) = PENDING)"
proof -
  have wf: "\<forall>r'\<in>set (orders_of limit_book ''AAPL'').
              r' < length (order_objs limit_store) \<and> valid_order (order_objs limit_store ! r')"
    by (simp add: limit_book_orders limit_store_simps valid_order_def limit_buy_95_def)
  have d: "distinct (orders_of limit_book ''AAPL'')" by (simp add: limit_book_orders)
  have r: "0 \<in> set (orders_of limit_book ''AAPL'')" by (simp add: limit_book_orders)
  have ty: "order_type (order_objs limit_store ! 0) = LIMIT"
    by (simp add: limit_store_simps limit_buy_95_def)
  have lp: "limit_price (order_objs limit_store ! 0) = Some 95"
    by (simp add: limit_store_simps limit_buy_95_def)
  have mt: "maybe_timeout (order_objs limit_store ! 0) 0 = limit_buy_95"
    by (simp add: limit_store_simps limit_buy_95_def maybe_timeout_def)
  have op: "is_open (maybe_timeout (order_objs limit_store ! 0) 0)"
    by (simp add: mt) (simp add: limit_buy_95_def is_open_def)
  have sd: "side (order_objs limit_store ! 0) = BUY"
    by (simp add: limit_store_simps limit_buy_95_def)
  have fl: "fills (order_objs limit_store ! 0) = []"
    by (simp add: limit_store_simps limit_buy_95_def)
  from limit_order_fill_rule[OF wf d r ty lp op, of 93 96 94 0 None]
  have a: "\<exists>st' fs. process_bar limit_store limit_book ''AAPL'' 0 93 96 94 0 None = Inr (st', fs) \<and>
      (\<exists>fr\<in>set fs. fills (order_objs st' ! 0) = [fr] \<and> fill_price (fill_objs st' ! fr) = 93)"
    unfolding sd fl by simp blast
  from limit_order_fill_rule[OF wf d r ty lp op, of 100 100 96 0 None]
  have b: "\<exists>st' fs. process_bar limit_store limit_book ''AAPL'' 0 100 100 96 0 None = Inr (st', fs) \<and>
      fills (order_objs st' ! 0) = [] \<and> status (order_objs st' ! 0) = PENDING"
    unfolding sd fl mt by (simp add: limit_buy_95_def) force
  show ?thesis using a b by (rule conjI)
qed

section \<open>Construction and submission\<close>

lemma order_init_iff:
  "(\<exists>err. Order_init symb sd ty qty lmt stp created tmo fq uuid = Inl err) =
     (qty \<le> 0 \<or> sd = HOLD \<or> (ty = LIMIT \<and> lmt = None) \<or> (ty = STOP \<and> stp = None))"
  by (auto simp: Order_init_def)

lemma order_init_valid:
  "Order_init symb sd ty qty lmt stp created tmo fq uuid = Inr ord \<Longrightarrow> valid_order ord"
  by (auto simp: Order_init_def valid_order_def split: if_splits)

lemma valid_order_cancel [simp]: "valid_order (cancel ord) = valid_order ord"
  by (simp add: cancel_def valid_order_def)

lemma all_valid_update:
  assumes "all_valid st" and "r < length (order_objs st) \<Longrightarrow> valid_order v"
  shows "all_valid (st\<lparr>order_objs := (order_objs st)[r := v]\<rparr>)"
proof (cases "r < length (order_objs st)")
  case True
  then show ?thesis using assms set_update_subset_insert[of "order_objs st" r v]
    by (auto simp: all_valid_def)
next
  case False
  then have "length (order_objs st) \<le> r" by simp
  then show ?thesis using assms(1) by (simp add: all_valid_def list_update_beyond)
qed

lemma process_order_all_valid:
  assumes "process_order symb time price high low commission arg_cap book_cap st r = Inr (st', new)"
    and "all_valid st"
  shows "all_valid st'"
proof -
  have v: "r < length (order_objs st) \<Longrightarrow> valid_order (order_objs st ! r)"
    using assms(2) by (simp add: all_valid_def)
  show ?thesis
  proof (cases "match_order symb time price high low commission arg_cap book_cap
             (length (fill_objs st)) (order_objs st ! r)")
    case (Inl e)
    then show ?thesis using assms(1) by (simp add: process_order_match)
  next
    case (Inr res)
    obtain ord' fo where res: "res = (ord', fo)" by (cases res)
    have vo: "r < length (order_objs st) \<Longrightarrow> valid_order ord'"
      using match_order_valid[OF v, of symb time price high low commission arg_cap book_cap
          "length (fill_objs st)"] Inr res by simp
    from all_valid_update[OF assms(2) vo]
    have "all_valid (st\<lparr>order_objs := (order_objs st)[r := ord']\<rparr>)" by simp
    then show ?thesis using assms(1) Inr res
      by (cases fo) (auto simp: process_order_match all_valid_def)
  qed
qed

lemma process_orders_all_valid:
  "process_orders symb time price high low commission arg_cap book_cap rs st fs = Inr (st', fs') \<Longrightarrow>
   all_valid st \<Longrightarrow> all_valid st'"
proof (induction rs arbitrary: st fs)
  case Nil
  then show ?case by simp
next
  case (Cons a rs)
  from Cons.prems(1) obtain st1 new where
    step: "process_order symb time price high low commission arg_cap book_cap st a = Inr (st1, new)"
    and rest: "process_orders symb time price high low commission arg_cap book_cap rs st1 (fs @ new) = Inr (st', fs')"
    by (auto split: sum.splits)
  from process_order_all_valid[OF step Cons.prems(2)] have "all_valid st1" .
  from Cons.IH[OF rest this] show ?case .
qed

lemma cancel_order_all_valid:
  "all_valid st \<Longrightarrow> all_valid (fst (OrderBook_cancel_order st ob oid))"
proof -
  assume a: "all_valid st"
  show ?thesis
  proof (cases "find (\<lambda>r. order_id (order_objs st ! r) = oid \<and> is_open (order_objs st ! r))
             (concat (map snd (orders ob)))")
    case None
    then show ?thesis using a by (simp add: OrderBook_cancel_order_def)
  next
    case (Some r)
    have "r < length (order_objs st) \<Longrightarrow> valid_order (cancel (order_objs st ! r))"
      using a by (simp add: all_valid_def)
    from all_valid_update[OF a this] show ?thesis using Some
      by (simp add: OrderBook_cancel_order_def)
  qed
qed

lemma exec_op_all_valid:
  assumes "exec_op e x = Inr e'" and "all_valid (objs e)"
  shows "all_valid (objs e')"
proof (cases x)
  case (NewOrder symb sd ty qty lmt stp created tmo fq uuid)
  then show ?thesis using assms
    by (auto simp: new_order_def all_valid_def split: sum.splits dest: order_init_valid)
next
  case (AddOrder r)
  then show ?thesis using assms by (auto split: if_splits)
next
  case (Submit r)
  then show ?thesis using assms by (auto simp: submit_def split: if_splits sum.splits)
next
  case (ProcessBar symb time price high low commission arg_cap)
  then show ?thesis using assms
    by (auto simp: process_bar_def split: sum.splits dest: process_orders_all_valid)
next
  case (CancelOrder oid)
  then show ?thesis using assms cancel_order_all_valid[of "objs e" "book e" oid] by auto
next
  case (MaybeTimeout r now)
  have "r < length (order_objs (objs e)) \<Longrightarrow> valid_order (maybe_timeout (order_objs (objs e) ! r) now)"
    using assms(2) by (simp add: all_valid_def)
  from all_valid_update[OF assms(2) this] show ?thesis using MaybeTimeout assms(1)
    by (auto split: if_splits)
next
  case (Cancel r)
  have "r < length (order_objs (objs e)) \<Longrightarrow> valid_order (cancel (order_objs (objs e) ! r))"
    using assms(2) by (simp add: all_valid_def)
  from all_valid_update[OF assms(2) this] show ?thesis using Cancel assms(1)
    by (auto split: if_splits)
qed


lemma exec_ops_all_valid:
  "exec_ops e xs = Inr e' \<Longrightarrow> all_valid (objs e) \<Longrightarrow> all_valid (objs e')"
proof (induction xs arbitrary: e)
  case Nil
  then show ?case by simp
next
  case (Cons x xs)
  from Cons.prems(1) obtain e1 where
    s: "exec_op e x = Inr e1" and r: "exec_ops e1 xs = Inr e'"
    by (auto split: sum.splits)
  from Cons.IH[OF r exec_op_all_valid[OF s Cons.prems(2)]] show ?case .
qed

lemma book_refs_add_order:
  "book_refs (add_order st ob r) = insert r (book_refs ob)"
proof -
  have "set (concat (map snd (AList.update k
            ((case map_of al k of None \<Rightarrow> [] | Some rs \<Rightarrow> rs) @ [r]) al))) =
        insert r (set (concat (map snd al)))" for k and al :: "(symbol \<times> oref list) list"
    by (induction al) auto
  then show ?thesis
    by (simp add: book_refs_def add_order_def orders_of_def Let_def)
qed

lemma process_bar_length:
  "process_bar st ob symb time price high low commission arg_cap = Inr (st', fs) \<Longrightarrow>
   length (order_objs st') = length (order_objs st)"
  using process_orders_frame by (auto simp: process_bar_def)

lemma cancel_order_length:
  "length (order_objs (fst (OrderBook_cancel_order st ob oid))) = length (order_objs st)"
  by (simp add: OrderBook_cancel_order_def split: option.splits)

lemma exec_op_refs_ok:
  assumes "exec_op e x = Inr e'" and "refs_ok e"
  shows "refs_ok e'"
proof (cases x)
  case (NewOrder symb sd ty qty lmt stp created tmo fq uuid)
  then show ?thesis using assms
    by (auto simp: new_order_def refs_ok_def split: sum.splits) fastforce
next
  case (AddOrder r)
  then show ?thesis using assms
    by (auto simp: refs_ok_def book_refs_add_order split: if_splits)
next
  case (Submit r)
  then show ?thesis using assms
    by (auto simp: refs_ok_def submit_def book_refs_add_order split: if_splits sum.splits)
next
  case (ProcessBar symb time price high low commission arg_cap)
  then show ?thesis using assms
    by (auto simp: refs_ok_def split: sum.splits dest: process_bar_length)
next
  case (CancelOrder oid)
  then show ?thesis using assms by (auto simp: refs_ok_def cancel_order_length)
next
  case (MaybeTimeout r now)
  then show ?thesis using assms by (auto simp: refs_ok_def split: if_splits)
next
  case (Cancel r)
  then show ?thesis using assms by (auto simp: refs_ok_def split: if_splits)
qed

lemma exec_ops_refs_ok:
  "exec_ops e xs = Inr e' \<Longrightarrow> refs_ok e \<Longrightarrow> refs_ok e'"
proof (induction xs arbitrary: e)
  case Nil
  then show ?case by simp
next
  case (Cons x xs)
  from Cons.prems(1) obtain e1 where
    s: "exec_op e x = Inr e1" and r: "exec_ops e1 xs = Inr e'"
    by (auto split: sum.splits)
  from Cons.IH[OF r exec_op_refs_ok[OF s Cons.prems(2)]] show ?case .
qed

lemma engine_init_ok: "all_valid (objs (engine_init cap))" "refs_ok (engine_init cap)"
  by (simp_all add: engine_init_def all_valid_def refs_ok_def empty_store_def book_refs_def
      OrderBook_init_def)

text \<open>
  Claim C8. Constructing an order raises exactly when the quantity is not positive, the side
  is HOLD, the type is LIMIT without a limit price or the type is STOP without a stop price.
  An order the constructor returns passes the check of \<^verbatim>\<open>OrderManager.submit\<close>. In every
  state the engine reaches from an empty book, every order the book refers to is an object
  of the store that passed the constructor's checks, and registering any existing order
  (through \<^verbatim>\<open>OrderManager.submit\<close> or \<^verbatim>\<open>add_order\<close>) succeeds: nothing is rejected at
  submission.
\<close>

theorem order_rejected_at_construction:
  "((\<exists>err. Order_init symb sd ty qty lmt stp created tmo fq uuid = Inl err) =
      (qty \<le> 0 \<or> sd = HOLD \<or> (ty = LIMIT \<and> lmt = None) \<or> (ty = STOP \<and> stp = None))) \<and>
   (\<forall>ord. Order_init symb sd ty qty lmt stp created tmo fq uuid = Inr ord \<longrightarrow>
      valid_order ord \<and> validate ord = Inr ()) \<and>
   (\<forall>ops e. exec_ops (engine_init cap) ops = Inr e \<longrightarrow>
      (\<forall>r\<in>book_refs (book e).
         r < length (order_objs (objs e)) \<and> valid_order (order_objs (objs e) ! r)) \<and>
      (\<forall>r<length (order_objs (objs e)).
         exec_op e (Submit r) = Inr (e\<lparr>book := add_order (objs e) (book e) r\<rparr>) \<and>
         exec_op e (AddOrder r) = Inr (e\<lparr>book := add_order (objs e) (book e) r\<rparr>)))"
proof (intro conjI allI impI)
  show "(\<exists>err. Order_init symb sd ty qty lmt stp created tmo fq uuid = Inl err) =
      (qty \<le> 0 \<or> sd = HOLD \<or> (ty = LIMIT \<and> lmt = None) \<or> (ty = STOP \<and> stp = None))"
    by (rule order_init_iff)
next
  fix ord assume "Order_init symb sd ty qty lmt stp created tmo fq uuid = Inr ord"
  then show "valid_order ord" by (rule order_init_valid)
next
  fix ord assume "Order_init symb sd ty qty lmt stp created tmo fq uuid = Inr ord"
  then have "valid_order ord" by (rule order_init_valid)
  then show "validate ord = Inr ()" by (simp add: validate_def valid_order_def)
next
  fix ops e assume run: "exec_ops (engine_init cap) ops = Inr e"
  have v: "all_valid (objs e)" using exec_ops_all_valid[OF run] engine_init_ok by simp
  have k: "refs_ok e" using exec_ops_refs_ok[OF run] engine_init_ok by simp
  show "\<forall>r\<in>book_refs (book e).
         r < length (order_objs (objs e)) \<and> valid_order (order_objs (objs e) ! r)"
    using v k by (auto simp: all_valid_def refs_ok_def)
next
  fix ops e r
  assume run: "exec_ops (engine_init cap) ops = Inr e" and r: "r < length (order_objs (objs e))"
  have "all_valid (objs e)" using exec_ops_all_valid[OF run] engine_init_ok by simp
  then have "valid_order (order_objs (objs e) ! r)" using r by (simp add: all_valid_def)
  then have "validate (order_objs (objs e) ! r) = Inr ()"
    by (simp add: validate_def valid_order_def)
  then show "exec_op e (Submit r) = Inr (e\<lparr>book := add_order (objs e) (book e) r\<rparr>)"
    using r by (simp add: submit_def)
next
  fix e :: engine and r
  assume "r < length (order_objs (objs e))"
  then show "exec_op e (AddOrder r) = Inr (e\<lparr>book := add_order (objs e) (book e) r\<rparr>)"
    by simp
qed


lemma example_trace:
  "exec_ops (engine_init None)
     [NewOrder ''AAPL'' BUY LIMIT 100 (Some 95) None 0 None 0 ''a1'', AddOrder 0] =
   Inr \<lparr>objs = limit_store, book = limit_book\<rparr>"
  by (simp add: engine_init_def limit_buy_95_constructed limit_store_def limit_book_def
      new_order_def empty_store_def)

theorem order_rejected_at_construction_witness:
  "(\<exists>err. Order_init ''AAPL'' HOLD MARKET 10 None None 0 None 0 ''a0'' = Inl err) \<and>
   (\<exists>err. Order_init ''AAPL'' BUY LIMIT 10 None None 0 None 0 ''a0'' = Inl err) \<and>
   valid_order limit_buy_95 \<and> validate limit_buy_95 = Inr () \<and>
   0 \<in> book_refs limit_book \<and> valid_order (order_objs limit_store ! 0) \<and>
   exec_op \<lparr>objs = limit_store, book = limit_book\<rparr> (Submit 0) =
     Inr \<lparr>objs = limit_store, book = add_order limit_store limit_book 0\<rparr>"
proof -
  note t1 = order_rejected_at_construction[where symb="''AAPL''" and sd=HOLD and ty=MARKET
      and qty=10 and lmt=None and stp=None and created=0 and tmo=None and fq=0
      and uuid="''a0''" and cap=None]
  note t2 = order_rejected_at_construction[where symb="''AAPL''" and sd=BUY and ty=LIMIT
      and qty=10 and lmt=None and stp=None and created=0 and tmo=None and fq=0
      and uuid="''a0''" and cap=None]
  note t3 = order_rejected_at_construction[where symb="''AAPL''" and sd=BUY and ty=LIMIT
      and qty=100 and lmt="Some 95" and stp=None and created=0 and tmo=None and fq=0
      and uuid="''a1''" and cap=None]
  have a: "\<exists>err. Order_init ''AAPL'' HOLD MARKET 10 None None 0 None 0 ''a0'' = Inl err"
    using t1 by simp
  have b: "\<exists>err. Order_init ''AAPL'' BUY LIMIT 10 None None 0 None 0 ''a0'' = Inl err"
    using t2 by simp
  have c: "valid_order limit_buy_95 \<and> validate limit_buy_95 = Inr ()"
    using t3 limit_buy_95_constructed by simp
  have r0: "0 \<in> book_refs limit_book"
    by (simp add: book_refs_def limit_book_def add_order_def OrderBook_init_def Let_def)
  from t3 example_trace have
    d: "(\<forall>r\<in>book_refs limit_book.
          r < length (order_objs limit_store) \<and> valid_order (order_objs limit_store ! r)) \<and>
        (\<forall>r<length (order_objs limit_store).
          exec_op \<lparr>objs = limit_store, book = limit_book\<rparr> (Submit r) =
            Inr (\<lparr>objs = limit_store, book = limit_book\<rparr>
                   \<lparr>book := add_order limit_store limit_book r\<rparr>) \<and>
          exec_op \<lparr>objs = limit_store, book = limit_book\<rparr> (AddOrder r) =
            Inr (\<lparr>objs = limit_store, book = limit_book\<rparr>
                   \<lparr>book := add_order limit_store limit_book r\<rparr>))"
    by (metis engine.select_convs(1) engine.select_convs(2))
  have e: "valid_order (order_objs limit_store ! 0)" using d r0 by blast
  have l: "0 < length (order_objs limit_store)" using d r0 by blast
  have f: "exec_op \<lparr>objs = limit_store, book = limit_book\<rparr> (Submit 0) =
     Inr \<lparr>objs = limit_store, book = add_order limit_store limit_book 0\<rparr>"
    using d l by simp
  show ?thesis using a b c r0 e f by blast
qed

section \<open>The invariant of an order\<close>

lemma fill_qty_le: "fill_qty ord arg_cap book_cap \<le> remaining ord"
  by (simp add: fill_qty_def Let_def split: option.splits)

lemma fills_total_cong:
  assumes "fills_in_store st ord" and "fills ord' = fills ord"
    and "fill_objs st' = fill_objs st @ ext"
  shows "fills_total st' ord' = fills_total st ord" and "fills_in_store st' ord'"
proof -
  have "\<forall>fr\<in>set (fills ord). fr < length (fill_objs st)"
    using assms(1) by (simp add: fills_in_store_def list_all_iff)
  then have "map (\<lambda>fr. fill_quantity (fill_objs st' ! fr)) (fills ord) =
             map (\<lambda>fr. fill_quantity (fill_objs st ! fr)) (fills ord)"
    using assms(3) by (simp add: nth_append)
  then show "fills_total st' ord' = fills_total st ord"
    unfolding fills_total_def assms(2) by (rule arg_cong)
  show "fills_in_store st' ord'"
    using assms by (auto simp: fills_in_store_def list_all_iff)
qed

lemma order_inv_status:
  assumes "order_inv st ord" and "fills_in_store st ord"
    and "fills ord' = fills ord" and "filled_qty ord' = filled_qty ord"
    and "quantity ord' = quantity ord"
    and "(status ord' = FILLED) = (status ord = FILLED)"
    and "fill_objs st' = fill_objs st @ ext"
  shows "order_inv st' ord' \<and> fills_in_store st' ord'"
  using assms fills_total_cong[OF assms(2) assms(3) assms(7)]
  by (simp add: order_inv_def)

lemma order_inv_maybe_timeout:
  assumes "order_inv st ord" and "fills_in_store st ord"
  shows "order_inv st (maybe_timeout ord now) \<and> fills_in_store st (maybe_timeout ord now)"
proof -
  have "(status (maybe_timeout ord now) = FILLED) = (status ord = FILLED)"
    by (auto simp: maybe_timeout_def is_open_def split: option.splits)
  then show ?thesis
    using order_inv_status[OF assms, of "maybe_timeout ord now" st "[]"] by simp
qed

lemma order_inv_cancel:
  assumes "order_inv st ord" and "fills_in_store st ord"
  shows "order_inv st (cancel ord) \<and> fills_in_store st (cancel ord)"
proof -
  have "(status (cancel ord) = FILLED) = (status ord = FILLED)"
    "fills (cancel ord) = fills ord" "filled_qty (cancel ord) = filled_qty ord"
    "quantity (cancel ord) = quantity ord"
    by (auto simp: cancel_def is_open_def)
  then show ?thesis
    using order_inv_status[OF assms, of "cancel ord" st "[]"] by simp
qed

lemma order_inv_record_fill:
  assumes inv: "order_inv st ord" and fs: "fills_in_store st ord"
    and op: "is_open ord" and q: "q \<le> remaining ord"
    and f: "fill_quantity fill = q"
  shows "order_inv (st\<lparr>fill_objs := fill_objs st @ [fill]\<rparr>)
           (record_fill ord (length (fill_objs st)) q) \<and>
         fills_in_store (st\<lparr>fill_objs := fill_objs st @ [fill]\<rparr>)
           (record_fill ord (length (fill_objs st)) q)"
proof -
  let ?st = "st\<lparr>fill_objs := fill_objs st @ [fill]\<rparr>"
  have old: "fills_total ?st ord = fills_total st ord" "fills_in_store ?st ord"
    using fills_total_cong[OF fs refl, of ?st "[fill]"] by simp_all
  have tot: "fills_total ?st (record_fill ord (length (fill_objs st)) q) = fills_total st ord + q"
    using old(1) f by (simp add: fills_total_def)
  have nf: "status ord \<noteq> FILLED" using op by (auto simp: is_open_def)
  have le: "filled_qty ord + q \<le> quantity ord" using q by (simp add: remaining_def)
  have "order_inv ?st (record_fill ord (length (fill_objs st)) q)"
    using inv tot le by (auto simp: order_inv_def record_fill_def Let_def)
  moreover have "fills_in_store ?st (record_fill ord (length (fill_objs st)) q)"
    using old(2) by (simp add: fills_in_store_def)
  ultimately show ?thesis by simp
qed


lemma inv_fill_objs:
  "fill_objs a = fill_objs b \<Longrightarrow> order_inv a ord = order_inv b ord"
  "fill_objs a = fill_objs b \<Longrightarrow> fills_in_store a ord = fills_in_store b ord"
  by (simp_all add: order_inv_def fills_total_def fills_in_store_def)

lemma all_inv_update:
  assumes a: "all_inv st"
    and f: "fill_objs st' = fill_objs st @ ext"
    and o: "order_objs st' = (order_objs st)[r := v]"
    and v: "r < length (order_objs st) \<Longrightarrow> order_inv st' v \<and> fills_in_store st' v"
  shows "all_inv st'"
  unfolding all_inv_def
proof
  fix ord assume m: "ord \<in> set (order_objs st')"
  show "order_inv st' ord \<and> fills_in_store st' ord"
  proof (cases "r < length (order_objs st)")
    case True
    from m o set_update_subset_insert[of "order_objs st" r v]
    have "ord = v \<or> ord \<in> set (order_objs st)" by auto
    then show ?thesis
    proof
      assume "ord = v" then show ?thesis using v[OF True] by simp
    next
      assume "ord \<in> set (order_objs st)"
      then have "order_inv st ord" "fills_in_store st ord" using a by (simp_all add: all_inv_def)
      then show ?thesis using order_inv_status[of st ord ord st' ext] f by simp
    qed
  next
    case False
    then have "order_objs st' = order_objs st" using o by (simp add: list_update_beyond)
    then have "ord \<in> set (order_objs st)" using m by simp
    then have "order_inv st ord" "fills_in_store st ord" using a by (simp_all add: all_inv_def)
    then show ?thesis using order_inv_status[of st ord ord st' ext] f by simp
  qed
qed

lemma match_order_inv:
  assumes m: "match_order symb time price high low commission arg_cap book_cap
                (length (fill_objs st)) ord = Inr (ord', fo)"
    and inv: "order_inv st ord" and fs: "fills_in_store st ord"
  shows "order_inv (st\<lparr>fill_objs := fill_objs st @ (case fo of None \<Rightarrow> [] | Some f \<Rightarrow> [f])\<rparr>) ord' \<and>
         fills_in_store (st\<lparr>fill_objs := fill_objs st @ (case fo of None \<Rightarrow> [] | Some f \<Rightarrow> [f])\<rparr>) ord'"
proof -
  note mt = order_inv_maybe_timeout[OF inv fs, of time]
  show ?thesis
  proof (cases "is_open (maybe_timeout ord time)")
    case False
    then show ?thesis using m mt by (auto simp: match_order_def)
  next
    case True
    show ?thesis
    proof (cases "fill_price_of (maybe_timeout ord time) price high low")
      case (Inl e)
      then show ?thesis using m True by (simp add: match_order_def)
    next
      case (Inr po)
      show ?thesis
      proof (cases po)
        case None
        then show ?thesis using m True Inr mt by (auto simp: match_order_def)
      next
        case (Some p)
        let ?q = "fill_qty (maybe_timeout ord time) arg_cap book_cap"
        let ?f = "\<lparr>fill_symbol = symb, fill_time = time,
                   fill_type = side (maybe_timeout ord time), fill_quantity = ?q,
                   fill_price = p, fill_commission = commission\<rparr>"
        have r: "ord' = record_fill (maybe_timeout ord time) (length (fill_objs st)) ?q"
          and f: "fo = Some ?f"
          using m True Inr Some by (simp_all add: match_order_def)
        from order_inv_record_fill[of st "maybe_timeout ord time" ?q ?f] mt True fill_qty_le
        show ?thesis unfolding r f by simp
      qed
    qed
  qed
qed

lemma process_order_all_inv:
  assumes p: "process_order symb time price high low commission arg_cap book_cap st r = Inr (st', new)"
    and a: "all_inv st"
  shows "all_inv st'"
proof (cases "match_order symb time price high low commission arg_cap book_cap
             (length (fill_objs st)) (order_objs st ! r)")
  case (Inl e)
  then show ?thesis using p by (simp add: process_order_match)
next
  case (Inr res)
  obtain ord' fo where res: "res = (ord', fo)" by (cases res)
  let ?ext = "case fo of None \<Rightarrow> [] | Some f \<Rightarrow> [f]"
  have f: "fill_objs st' = fill_objs st @ ?ext"
    and o: "order_objs st' = (order_objs st)[r := ord']"
    using p Inr res by (cases fo; auto simp: process_order_match)+
  have v: "order_inv st' ord' \<and> fills_in_store st' ord'" if "r < length (order_objs st)"
  proof -
    from that a have "order_inv st (order_objs st ! r)" "fills_in_store st (order_objs st ! r)"
      by (simp_all add: all_inv_def)
    from match_order_inv[OF Inr[unfolded res] this]
    show ?thesis using inv_fill_objs[of st' "st\<lparr>fill_objs := fill_objs st @ ?ext\<rparr>" ord'] f
      by simp
  qed
  from all_inv_update[OF a f o v] show ?thesis .
qed

lemma process_orders_all_inv:
  "process_orders symb time price high low commission arg_cap book_cap rs st fs = Inr (st', fs') \<Longrightarrow>
   all_inv st \<Longrightarrow> all_inv st'"
proof (induction rs arbitrary: st fs)
  case Nil
  then show ?case by simp
next
  case (Cons a rs)
  from Cons.prems(1) obtain st1 new where
    step: "process_order symb time price high low commission arg_cap book_cap st a = Inr (st1, new)"
    and rest: "process_orders symb time price high low commission arg_cap book_cap rs st1 (fs @ new) = Inr (st', fs')"
    by (auto split: sum.splits)
  from Cons.IH[OF rest process_order_all_inv[OF step Cons.prems(2)]] show ?case .
qed


lemma cancel_order_all_inv:
  assumes a: "all_inv st"
  shows "all_inv (fst (OrderBook_cancel_order st ob oid))"
proof (cases "find (\<lambda>r. order_id (order_objs st ! r) = oid \<and> is_open (order_objs st ! r))
             (concat (map snd (orders ob)))")
  case None
  then show ?thesis using a by (simp add: OrderBook_cancel_order_def)
next
  case (Some r)
  let ?st = "st\<lparr>order_objs := (order_objs st)[r := cancel (order_objs st ! r)]\<rparr>"
  have v: "order_inv ?st (cancel (order_objs st ! r)) \<and>
           fills_in_store ?st (cancel (order_objs st ! r))" if "r < length (order_objs st)"
  proof -
    from that a have "order_inv st (order_objs st ! r)" "fills_in_store st (order_objs st ! r)"
      by (simp_all add: all_inv_def)
    from order_inv_cancel[OF this] show ?thesis
      using inv_fill_objs[of ?st st "cancel (order_objs st ! r)"] by simp
  qed
  have "all_inv ?st" by (rule all_inv_update[OF a _ _ v, of "[]"]) simp_all
  then show ?thesis using Some by (simp add: OrderBook_cancel_order_def)
qed

lemma new_order_all_inv:
  assumes a: "all_inv st"
    and c: "Order_init symb sd ty qty lmt stp created tmo 0 uuid = Inr ord"
  shows "all_inv (fst (new_order st ord))"
proof -
  have o: "fills ord = []" "filled_qty ord = 0" "status ord = PENDING" "0 < quantity ord"
    using c by (auto simp: Order_init_def split: if_splits)
  have n: "order_inv st ord \<and> fills_in_store st ord"
    using o by (simp add: order_inv_def fills_total_def fills_in_store_def)
  show ?thesis
    unfolding all_inv_def
  proof
    fix x assume "x \<in> set (order_objs (fst (new_order st ord)))"
    then have "x = ord \<or> x \<in> set (order_objs st)" by (auto simp: new_order_def)
    then have "order_inv st x \<and> fills_in_store st x" using n a by (auto simp: all_inv_def)
    then show "order_inv (fst (new_order st ord)) x \<and> fills_in_store (fst (new_order st ord)) x"
      using inv_fill_objs[of "fst (new_order st ord)" st x] by (simp add: new_order_def)
  qed
qed

lemma exec_op_all_inv:
  assumes x: "exec_op e x = Inr e'" and a: "all_inv (objs e)" and d: "default_filled_qty x"
  shows "all_inv (objs e')"
proof (cases x)
  case (NewOrder symb sd ty qty lmt stp created tmo fq uuid)
  then show ?thesis using x a d
    by (auto split: sum.splits dest: new_order_all_inv)
next
  case (AddOrder r)
  then show ?thesis using x a by (auto split: if_splits)
next
  case (Submit r)
  then show ?thesis using x a by (auto simp: submit_def split: if_splits sum.splits)
next
  case (ProcessBar symb time price high low commission arg_cap)
  then show ?thesis using x a
    by (auto simp: process_bar_def split: sum.splits dest: process_orders_all_inv)
next
  case (CancelOrder oid)
  then show ?thesis using x cancel_order_all_inv[OF a, of "book e" oid] by auto
next
  case (MaybeTimeout r now)
  let ?v = "maybe_timeout (order_objs (objs e) ! r) now"
  let ?st = "(objs e)\<lparr>order_objs := (order_objs (objs e))[r := ?v]\<rparr>"
  have v: "order_inv ?st ?v \<and> fills_in_store ?st ?v" if "r < length (order_objs (objs e))"
  proof -
    from that a have "order_inv (objs e) (order_objs (objs e) ! r)"
      "fills_in_store (objs e) (order_objs (objs e) ! r)"
      by (simp_all add: all_inv_def)
    from order_inv_maybe_timeout[OF this] show ?thesis
      using inv_fill_objs[of ?st "objs e" ?v] by simp
  qed
  have "all_inv ?st" by (rule all_inv_update[OF a _ _ v, of "[]"]) simp_all
  then show ?thesis using MaybeTimeout x by (auto split: if_splits)
next
  case (Cancel r)
  let ?v = "cancel (order_objs (objs e) ! r)"
  let ?st = "(objs e)\<lparr>order_objs := (order_objs (objs e))[r := ?v]\<rparr>"
  have v: "order_inv ?st ?v \<and> fills_in_store ?st ?v" if "r < length (order_objs (objs e))"
  proof -
    from that a have "order_inv (objs e) (order_objs (objs e) ! r)"
      "fills_in_store (objs e) (order_objs (objs e) ! r)"
      by (simp_all add: all_inv_def)
    from order_inv_cancel[OF this] show ?thesis
      using inv_fill_objs[of ?st "objs e" ?v] by simp
  qed
  have "all_inv ?st" by (rule all_inv_update[OF a _ _ v, of "[]"]) simp_all
  then show ?thesis using Cancel x by (auto split: if_splits)
qed

lemma exec_ops_all_inv:
  "exec_ops e xs = Inr e' \<Longrightarrow> all_inv (objs e) \<Longrightarrow> list_all default_filled_qty xs \<Longrightarrow>
   all_inv (objs e')"
proof (induction xs arbitrary: e)
  case Nil
  then show ?case by simp
next
  case (Cons x xs)
  from Cons.prems(1) obtain e1 where
    s: "exec_op e x = Inr e1" and r: "exec_ops e1 xs = Inr e'"
    by (auto split: sum.splits)
  have "all_inv (objs e1)" using exec_op_all_inv[OF s Cons.prems(2)] Cons.prems(3) by simp
  from Cons.IH[OF r this] Cons.prems(3) show ?case by simp
qed

text \<open>
  The invariant along traces. From an empty book, whatever the operations and the caps, every
  order constructed with \<^verbatim>\<open>filled_qty\<close> left at its default satisfies: the quantities of
  its fills add up to \<^verbatim>\<open>filled_qty\<close>, \<^verbatim>\<open>filled_qty\<close> is at most \<^verbatim>\<open>quantity\<close>, and the
  status is FILLED exactly when they are equal.
\<close>

lemma order_invariant_default_constructed:
  assumes "exec_ops (engine_init cap) ops = Inr e" and "list_all default_filled_qty ops"
  shows "\<forall>ord\<in>set (order_objs (objs e)).
           fills_total (objs e) ord = filled_qty ord \<and> filled_qty ord \<le> quantity ord \<and>
           (status ord = FILLED) = (filled_qty ord = quantity ord)"
proof -
  have "all_inv (objs (engine_init cap))"
    by (simp add: all_inv_def engine_init_def empty_store_def)
  from exec_ops_all_inv[OF assms(1) this assms(2)] show ?thesis
    by (simp add: all_inv_def order_inv_def)
qed

text \<open>
  Claim C1. The invariant is claimed for every order. The constructor, though, accepts
  \<^verbatim>\<open>filled_qty\<close> as an argument (the field is listed under ``Internal / auto-filled
  fields'' but, unlike \<^verbatim>\<open>id\<close>, \<^verbatim>\<open>status\<close> and \<^verbatim>\<open>fills\<close>, lacks \<^verbatim>\<open>init=False\<close>), and
  \<^verbatim>\<open>__post_init__\<close> does not check it. For
  \<^verbatim>\<open>Order("AAPL", BUY, MARKET, 10, filled_qty=5)\<close>, registered and matched against one bar,
  the engine emits one fill of 5 and the order ends FILLED with \<^verbatim>\<open>filled_qty = 10\<close>: the
  fills add up to 5, not to \<^verbatim>\<open>filled_qty\<close>.
\<close>

theorem order_invariant_broken_by_initial_filled_qty:
  "\<exists>e. exec_ops (engine_init None)
          [NewOrder ''AAPL'' BUY MARKET 10 None None 0 None 5 ''a1'', AddOrder 0,
           ProcessBar ''AAPL'' 1 100 101 99 0 None] = Inr e \<and>
        status (order_objs (objs e) ! 0) = FILLED \<and>
        quantity (order_objs (objs e) ! 0) = 10 \<and>
        filled_qty (order_objs (objs e) ! 0) = 10 \<and>
        fills_total (objs e) (order_objs (objs e) ! 0) = 5 \<and>
        \<not> order_inv (objs e) (order_objs (objs e) ! 0)"
  by (simp add: engine_init_def Order_init_def new_order_def empty_store_def add_order_def
      OrderBook_init_def orders_of_def process_bar_def process_order_def Let_def
      is_open_def maybe_timeout_def fill_price_of_def fill_qty_def remaining_def
      record_fill_def fills_total_def order_inv_def)

section \<open>The cap on the first fill\<close>

lemma sum_list_positive:
  "xs \<noteq> [] \<Longrightarrow> \<forall>x\<in>set xs. (0::int) < f x \<Longrightarrow> 0 < sum_list (map f xs)"
proof (induction xs)
  case Nil
  then show ?case by simp
next
  case (Cons a xs)
  then show ?case by (cases "xs = []") (simp_all add: add_pos_pos)
qed

lemma filled_positive:
  assumes "order_inv st ord" and "fills_positive st ord" and "fills ord \<noteq> []"
  shows "0 < filled_qty ord"
proof -
  have "0 < fills_total st ord"
    unfolding fills_total_def
    using assms(2,3) by (intro sum_list_positive) (simp_all add: fills_positive_def list_all_iff)
  then show ?thesis using assms(1) by (simp add: order_inv_def)
qed

lemma remaining_positive:
  assumes "order_inv st ord" and "is_open ord"
  shows "0 < remaining ord"
  using assms by (auto simp: order_inv_def is_open_def remaining_def)

lemma fill_qty_positive:
  assumes "order_inv st ord" and "is_open ord"
    and "cap_positive (case arg_cap of Some c \<Rightarrow> Some c | None \<Rightarrow> book_cap)"
  shows "0 < fill_qty ord arg_cap book_cap"
  using remaining_positive[OF assms(1,2)] assms(3)
  by (auto simp: fill_qty_def cap_positive_def Let_def split: option.splits)

lemma fills_positive_cong:
  assumes "fills_in_store st ord" and "fills_positive st ord" and "fills ord' = fills ord"
    and "fill_objs st' = fill_objs st @ ext"
  shows "fills_positive st' ord'"
  using assms by (auto simp: fills_positive_def fills_in_store_def list_all_iff nth_append)

lemma is_open_maybe_timeout: "is_open (maybe_timeout ord time) \<Longrightarrow> is_open ord"
  by (auto simp: maybe_timeout_def is_open_def split: option.splits if_splits)

lemma match_order_pos:
  assumes m: "match_order symb time price high low commission arg_cap book_cap
                (length (fill_objs st)) ord = Inr (ord', fo)"
    and inv: "order_inv st ord" and fs: "fills_in_store st ord" and pos: "fills_positive st ord"
    and cp: "cap_positive (case arg_cap of Some c \<Rightarrow> Some c | None \<Rightarrow> book_cap)"
  shows "fills_positive (st\<lparr>fill_objs := fill_objs st @ (case fo of None \<Rightarrow> [] | Some f \<Rightarrow> [f])\<rparr>) ord'"
proof -
  let ?mt = "maybe_timeout ord time"
  let ?st = "st\<lparr>fill_objs := fill_objs st @ (case fo of None \<Rightarrow> [] | Some f \<Rightarrow> [f])\<rparr>"
  have keep: "fills_positive ?st ?mt"
    using fills_positive_cong[OF fs pos, of ?mt ?st] by simp
  show ?thesis
  proof (cases "is_open ?mt")
    case False
    then show ?thesis using m keep by (auto simp: match_order_def)
  next
    case True
    show ?thesis
    proof (cases "fill_price_of ?mt price high low")
      case (Inl e)
      then show ?thesis using m True by (simp add: match_order_def)
    next
      case (Inr po)
      show ?thesis
      proof (cases po)
        case None
        then show ?thesis using m True Inr keep by (auto simp: match_order_def)
      next
        case (Some p)
        let ?q = "fill_qty ?mt arg_cap book_cap"
        have r: "ord' = record_fill ?mt (length (fill_objs st)) ?q"
          and f: "fo = Some \<lparr>fill_symbol = symb, fill_time = time,
                   fill_type = side ?mt, fill_quantity = ?q,
                   fill_price = p, fill_commission = commission\<rparr>"
          using m True Inr Some by (simp_all add: match_order_def)
        have q: "0 < ?q"
          using fill_qty_positive[OF _ True cp] order_inv_maybe_timeout[OF inv fs] by blast
        show ?thesis using keep q unfolding r f
          by (simp add: fills_positive_def)
      qed
    qed
  qed
qed


lemma all_pos_iff:
  "all_pos st = (all_inv st \<and> (\<forall>ord\<in>set (order_objs st). fills_positive st ord))"
  by (auto simp: all_pos_def all_inv_def)

lemma pos_fill_objs:
  "fill_objs a = fill_objs b \<Longrightarrow> fills_positive a ord = fills_positive b ord"
  by (simp add: fills_positive_def)

lemma pos_update:
  assumes a: "all_pos st"
    and f: "fill_objs st' = fill_objs st @ ext"
    and o: "order_objs st' = (order_objs st)[r := v]"
    and v: "r < length (order_objs st) \<Longrightarrow> fills_positive st' v"
  shows "\<forall>ord\<in>set (order_objs st'). fills_positive st' ord"
proof
  fix ord assume m: "ord \<in> set (order_objs st')"
  have old: "fills_positive st' x" if "x \<in> set (order_objs st)" for x
    using that a fills_positive_cong[of st x x st' ext] f by (simp add: all_pos_def)
  show "fills_positive st' ord"
  proof (cases "r < length (order_objs st)")
    case True
    from m o set_update_subset_insert[of "order_objs st" r v]
    have "ord = v \<or> ord \<in> set (order_objs st)" by auto
    then show ?thesis using v[OF True] old by blast
  next
    case False
    then have "order_objs st' = order_objs st" using o by (simp add: list_update_beyond)
    then show ?thesis using m old by simp
  qed
qed

lemma process_order_all_pos:
  assumes p: "process_order symb time price high low commission arg_cap book_cap st r = Inr (st', new)"
    and a: "all_pos st"
    and cp: "cap_positive (case arg_cap of Some c \<Rightarrow> Some c | None \<Rightarrow> book_cap)"
  shows "all_pos st'"
proof (cases "match_order symb time price high low commission arg_cap book_cap
             (length (fill_objs st)) (order_objs st ! r)")
  case (Inl e)
  then show ?thesis using p by (simp add: process_order_match)
next
  case (Inr res)
  obtain ord' fo where res: "res = (ord', fo)" by (cases res)
  let ?ext = "case fo of None \<Rightarrow> [] | Some f \<Rightarrow> [f]"
  have f: "fill_objs st' = fill_objs st @ ?ext"
    and o: "order_objs st' = (order_objs st)[r := ord']"
    using p Inr res by (cases fo; auto simp: process_order_match)+
  have v: "fills_positive st' ord'" if "r < length (order_objs st)"
  proof -
    from that a have "order_inv st (order_objs st ! r)" "fills_in_store st (order_objs st ! r)"
      "fills_positive st (order_objs st ! r)"
      by (simp_all add: all_pos_def)
    from match_order_pos[OF Inr[unfolded res] this cp]
    show ?thesis using pos_fill_objs[of st' "st\<lparr>fill_objs := fill_objs st @ ?ext\<rparr>" ord'] f
      by simp
  qed
  have "all_inv st'" using process_order_all_inv[OF p] a by (simp add: all_pos_iff)
  then show ?thesis using pos_update[OF a f o v] by (simp add: all_pos_iff)
qed

lemma process_orders_all_pos:
  "process_orders symb time price high low commission arg_cap book_cap rs st fs = Inr (st', fs') \<Longrightarrow>
   all_pos st \<Longrightarrow> cap_positive (case arg_cap of Some c \<Rightarrow> Some c | None \<Rightarrow> book_cap) \<Longrightarrow>
   all_pos st'"
proof (induction rs arbitrary: st fs)
  case Nil
  then show ?case by simp
next
  case (Cons a rs)
  from Cons.prems(1) obtain st1 new where
    step: "process_order symb time price high low commission arg_cap book_cap st a = Inr (st1, new)"
    and rest: "process_orders symb time price high low commission arg_cap book_cap rs st1 (fs @ new) = Inr (st', fs')"
    by (auto split: sum.splits)
  from Cons.IH[OF rest process_order_all_pos[OF step Cons.prems(2,3)] Cons.prems(3)]
  show ?case .
qed

lemma update_same_fills_all_pos:
  assumes a: "all_pos st" and s: "r < length (order_objs st) \<Longrightarrow> fills v = fills (order_objs st ! r)"
    and i: "all_inv (st\<lparr>order_objs := (order_objs st)[r := v]\<rparr>)"
  shows "all_pos (st\<lparr>order_objs := (order_objs st)[r := v]\<rparr>)"
proof -
  let ?st = "st\<lparr>order_objs := (order_objs st)[r := v]\<rparr>"
  have v: "fills_positive ?st v" if "r < length (order_objs st)"
  proof -
    from that a have "fills_in_store st (order_objs st ! r)" "fills_positive st (order_objs st ! r)"
      by (simp_all add: all_pos_def)
    from fills_positive_cong[OF this s[OF that], of ?st "[]"] show ?thesis by simp
  qed
  have "\<forall>ord\<in>set (order_objs ?st). fills_positive ?st ord"
    by (rule pos_update[OF a _ _ v, of "[]"]) simp_all
  then show ?thesis using i by (simp add: all_pos_iff)
qed

lemma fills_cancel [simp]: "fills (cancel ord) = fills ord"
  by (simp add: cancel_def)

lemma exec_op_cap [simp]:
  "exec_op e x = Inr e' \<Longrightarrow> max_qty_per_fill (book e') = max_qty_per_fill (book e)"
  by (cases x) (auto simp: add_order_def submit_def Let_def split: sum.splits if_splits)

lemma exec_op_all_pos:
  assumes x: "exec_op e x = Inr e'" and a: "all_pos (objs e)" and d: "default_filled_qty x"
    and pc: "positive_cap x" and bc: "cap_positive (max_qty_per_fill (book e))"
  shows "all_pos (objs e')"
proof -
  have i: "all_inv (objs e')" using exec_op_all_inv[OF x _ d] a by (simp add: all_pos_iff)
  show ?thesis
  proof (cases x)
    case (NewOrder symb sd ty qty lmt stp created tmo fq uuid)
    then obtain ord where c: "Order_init symb sd ty qty lmt stp created tmo fq uuid = Inr ord"
      and e': "e' = e\<lparr>objs := fst (new_order (objs e) ord)\<rparr>"
      using x by (auto split: sum.splits)
    have "fills ord = []" using c by (auto simp: Order_init_def split: if_splits)
    then have "fills_positive (objs e') ord" by (simp add: fills_positive_def)
    moreover have "fills_positive (objs e') y" if "y \<in> set (order_objs (objs e))" for y
      using that a pos_fill_objs[of "objs e'" "objs e" y] e'
      by (simp add: all_pos_def new_order_def)
    ultimately show ?thesis using i e' by (auto simp: all_pos_iff new_order_def)
  next
    case (AddOrder r)
    then show ?thesis using x a by (auto split: if_splits)
  next
    case (Submit r)
    then show ?thesis using x a by (auto simp: submit_def split: if_splits sum.splits)
  next
    case (ProcessBar symb time price high low commission arg_cap)
    have "cap_positive (case arg_cap of Some c \<Rightarrow> Some c | None \<Rightarrow> max_qty_per_fill (book e))"
      using pc bc ProcessBar by (cases arg_cap) simp_all
    then show ?thesis using x a ProcessBar
      by (auto simp: process_bar_def split: sum.splits dest: process_orders_all_pos)
  next
    case (CancelOrder oid)
    show ?thesis
    proof (cases "find (\<lambda>r. order_id (order_objs (objs e) ! r) = oid \<and>
                     is_open (order_objs (objs e) ! r)) (concat (map snd (orders (book e))))")
      case None
      then show ?thesis using x a CancelOrder by (auto simp: OrderBook_cancel_order_def)
    next
      case (Some r)
      then have e': "objs e' = (objs e)\<lparr>order_objs :=
          (order_objs (objs e))[r := cancel (order_objs (objs e) ! r)]\<rparr>"
        using x CancelOrder by (auto simp: OrderBook_cancel_order_def)
      show ?thesis unfolding e'
        by (rule update_same_fills_all_pos[OF a]) (use i e' in simp_all)
    qed
  next
    case (MaybeTimeout r now)
    then have e': "objs e' = (objs e)\<lparr>order_objs :=
          (order_objs (objs e))[r := maybe_timeout (order_objs (objs e) ! r) now]\<rparr>"
      using x by (auto split: if_splits)
    show ?thesis unfolding e'
      by (rule update_same_fills_all_pos[OF a]) (use i e' in simp_all)
  next
    case (Cancel r)
    then have e': "objs e' = (objs e)\<lparr>order_objs :=
          (order_objs (objs e))[r := cancel (order_objs (objs e) ! r)]\<rparr>"
      using x by (auto split: if_splits)
    show ?thesis unfolding e'
      by (rule update_same_fills_all_pos[OF a]) (use i e' in simp_all)
  qed
qed

lemma exec_ops_cap:
  "exec_ops e xs = Inr e' \<Longrightarrow> max_qty_per_fill (book e') = max_qty_per_fill (book e)"
proof (induction xs arbitrary: e)
  case Nil
  then show ?case by simp
next
  case (Cons x xs)
  from Cons.prems(1) obtain e1 where
    s: "exec_op e x = Inr e1" and r: "exec_ops e1 xs = Inr e'"
    by (auto split: sum.splits)
  from Cons.IH[OF r] exec_op_cap[OF s] show ?case by simp
qed

lemma exec_ops_all_pos:
  "exec_ops e xs = Inr e' \<Longrightarrow> all_pos (objs e) \<Longrightarrow> list_all default_filled_qty xs \<Longrightarrow>
   list_all positive_cap xs \<Longrightarrow> cap_positive (max_qty_per_fill (book e)) \<Longrightarrow>
   all_pos (objs e')"
proof (induction xs arbitrary: e)
  case Nil
  then show ?case by simp
next
  case (Cons x xs)
  from Cons.prems(1) obtain e1 where
    s: "exec_op e x = Inr e1" and r: "exec_ops e1 xs = Inr e'"
    by (auto split: sum.splits)
  have 1: "all_pos (objs e1)"
    using exec_op_all_pos[OF s Cons.prems(2)] Cons.prems(3,4,5) by simp
  have 2: "cap_positive (max_qty_per_fill (book e1))"
    using exec_op_cap[OF s] Cons.prems(5) by simp
  from Cons.IH[OF r 1 _ _ 2] Cons.prems(3,4) show ?case by simp
qed


lemma orders_of_refs:
  assumes "r \<in> set (orders_of ob symb)"
  shows "r \<in> book_refs ob"
proof (cases "map_of (orders ob) symb")
  case None
  then show ?thesis using assms by (simp add: orders_of_def)
next
  case (Some rs)
  then have "(symb, rs) \<in> set (orders ob)" by (rule map_of_SomeD)
  moreover have "r \<in> set rs" using assms Some by (simp add: orders_of_def)
  ultimately show ?thesis by (force simp: book_refs_def)
qed

lemma match_order_eligible:
  assumes "is_open (maybe_timeout ord time)"
    and "fill_price_of (maybe_timeout ord time) price high low = Inr (Some p)"
  shows "match_order symb time price high low commission arg_cap book_cap n ord =
     Inr (record_fill (maybe_timeout ord time) n (fill_qty (maybe_timeout ord time) arg_cap book_cap),
          Some \<lparr>fill_symbol = symb, fill_time = time, fill_type = side ord,
                fill_quantity = fill_qty (maybe_timeout ord time) arg_cap book_cap,
                fill_price = p, fill_commission = commission\<rparr>)"
  using assms by (simp add: match_order_def)

lemma fill_qty_first:
  "(case arg_cap of Some c \<Rightarrow> Some c | None \<Rightarrow> book_cap) = Some c \<Longrightarrow> filled_qty ord = 0 \<Longrightarrow>
   fill_qty ord arg_cap book_cap = min (remaining ord) c"
  by (simp add: fill_qty_def)

lemma fill_qty_later: "0 < filled_qty ord \<Longrightarrow> fill_qty ord arg_cap book_cap = remaining ord"
  by (simp add: fill_qty_def Let_def split: option.splits)

lemma remaining_maybe_timeout [simp]: "remaining (maybe_timeout ord time) = remaining ord"
  by (simp add: remaining_def)

text \<open>
  Claim C3. Take any state the engine reaches from an empty book when orders are constructed
  with the default \<^verbatim>\<open>filled_qty\<close> and every cap (the book's and each call's) is positive,
  as the configuration prescribes, and a symbol whose list holds each order once. In
  \<^verbatim>\<open>process_bar\<close>, an order that is open after the timeout evaluation and eligible at
  price \<open>p\<close> gets exactly one new fill at \<open>p\<close>. If a cap \<open>c\<close> is in force (the call's, else
  the book's) and the order's \<^verbatim>\<open>filled_qty\<close> is 0, the fill's quantity is
  \<open>min remaining c\<close>; if the order already has a fill, the quantity is the full remaining
  quantity, whatever the cap. The instance that follows is the scenario of the test suite:
  cap 50, a MARKET order for 120 fills 50 on the first bar (PARTIALLY_FILLED, 70 remaining)
  and 70 on the next (FILLED).
\<close>

theorem first_fill_cap:
  assumes run: "exec_ops (engine_init bcap) ops = Inr e"
    and dq: "list_all default_filled_qty ops"
    and pc: "list_all positive_cap ops" and bc: "cap_positive bcap"
    and d: "distinct (orders_of (book e) symb)"
    and r: "r \<in> set (orders_of (book e) symb)"
    and op: "is_open (maybe_timeout (order_objs (objs e) ! r) time)"
    and el: "fill_price_of (maybe_timeout (order_objs (objs e) ! r) time) price high low =
               Inr (Some p)"
  shows "\<exists>st' fs.
     process_bar (objs e) (book e) symb time price high low commission arg_cap = Inr (st', fs) \<and>
     (\<exists>fr\<in>set fs. length (fill_objs (objs e)) \<le> fr \<and> fr < length (fill_objs st') \<and>
        fills (order_objs st' ! r) = fills (order_objs (objs e) ! r) @ [fr] \<and>
        fill_price (fill_objs st' ! fr) = p \<and>
        (\<forall>c. (case arg_cap of Some c \<Rightarrow> Some c | None \<Rightarrow> bcap) = Some c \<longrightarrow>
             filled_qty (order_objs (objs e) ! r) = 0 \<longrightarrow>
             fill_quantity (fill_objs st' ! fr) = min (remaining (order_objs (objs e) ! r)) c) \<and>
        (fills (order_objs (objs e) ! r) \<noteq> [] \<longrightarrow>
             fill_quantity (fill_objs st' ! fr) = remaining (order_objs (objs e) ! r)))"
proof -
  let ?st = "objs e" and ?ob = "book e"
  let ?ord = "order_objs ?st ! r"
  have v: "all_valid ?st" using exec_ops_all_valid[OF run] engine_init_ok by simp
  have k: "refs_ok e" using exec_ops_refs_ok[OF run] engine_init_ok by simp
  have cap: "max_qty_per_fill ?ob = bcap"
    using exec_ops_cap[OF run] by (simp add: engine_init_def OrderBook_init_def)
  have "all_pos (objs (engine_init bcap))"
    by (simp add: all_pos_def engine_init_def empty_store_def)
  from exec_ops_all_pos[OF run this dq pc] bc
  have ap: "all_pos ?st" by (simp add: engine_init_def OrderBook_init_def)
  have wf: "\<forall>r'\<in>set (orders_of ?ob symb).
              r' < length (order_objs ?st) \<and> valid_order (order_objs ?st ! r')"
    using v k orders_of_refs by (fastforce simp: all_valid_def refs_ok_def)
  have lt: "r < length (order_objs ?st)" using wf r by blast
  then have inv: "order_inv ?st ?ord" and pos: "fills_positive ?st ?ord"
    using ap by (simp_all add: all_pos_def)
  from process_orders_valid[OF wf] obtain st' fs where
    pr: "process_orders symb time price high low commission arg_cap (max_qty_per_fill ?ob)
            (orders_of ?ob symb) ?st [] = Inr (st', fs)"
    by blast
  from process_orders_visit[OF pr d r lt] obtain n where
    n: "length (fill_objs ?st) \<le> n"
    and c: "case match_order symb time price high low commission arg_cap (max_qty_per_fill ?ob) n
                   ?ord of
              Inl e \<Rightarrow> False
            | Inr (ord', None) \<Rightarrow> order_objs st' ! r = ord'
            | Inr (ord', Some f) \<Rightarrow>
                order_objs st' ! r = ord' \<and> n \<in> set fs \<and>
                n < length (fill_objs st') \<and> fill_objs st' ! n = f"
    by blast
  note m = match_order_eligible[OF op el, of symb commission arg_cap "max_qty_per_fill ?ob" n]
  have res: "n \<in> set fs" "n < length (fill_objs st')"
    "fills (order_objs st' ! r) = fills ?ord @ [n]"
    "fill_price (fill_objs st' ! n) = p"
    "fill_quantity (fill_objs st' ! n) = fill_qty (maybe_timeout ?ord time) arg_cap bcap"
    using c m cap by simp_all
  have first: "fill_quantity (fill_objs st' ! n) = min (remaining ?ord) c"
    if "(case arg_cap of Some c \<Rightarrow> Some c | None \<Rightarrow> bcap) = Some c" "filled_qty ?ord = 0" for c
    using res(5) fill_qty_first[OF that(1), of "maybe_timeout ?ord time"] that(2) by simp
  have later: "fill_quantity (fill_objs st' ! n) = remaining ?ord" if "fills ?ord \<noteq> []"
    using res(5) fill_qty_later[of "maybe_timeout ?ord time" arg_cap bcap]
      filled_positive[OF inv pos that] by simp
  have "process_bar ?st ?ob symb time price high low commission arg_cap = Inr (st', fs)"
    using pr by (simp add: process_bar_def)
  then show ?thesis using n res first later by blast
qed


lemmas engine_eval =
  engine_init_def Order_init_def new_order_def empty_store_def add_order_def
  OrderBook_init_def orders_of_def process_bar_def process_order_def Let_def
  is_open_def maybe_timeout_def fill_price_of_def fill_qty_def remaining_def
  record_fill_def

lemma sell_120_bar1: "exec_ops (engine_init (Some 50)) sell_120_ops = Inr sell_120_after_bar1"
  by (simp add: sell_120_ops_def sell_120_after_bar1_def engine_eval)

theorem first_fill_cap_witness:
  "exec_ops (engine_init (Some 50)) sell_120_ops = Inr sell_120_after_bar1 \<and>
   map (\<lambda>fr. fill_quantity (fill_objs (objs sell_120_after_bar1) ! fr))
     (fills (order_objs (objs sell_120_after_bar1) ! 0)) = [50] \<and>
   status (order_objs (objs sell_120_after_bar1) ! 0) = PARTIALLY_FILLED \<and>
   remaining (order_objs (objs sell_120_after_bar1) ! 0) = 70 \<and>
   (\<exists>st' fs. process_bar (objs sell_120_after_bar1) (book sell_120_after_bar1)
               ''AAPL'' 2 99 (201 / 2) 98 0 None = Inr (st', fs) \<and>
      (\<exists>fr\<in>set fs. fills (order_objs st' ! 0) = [0, fr] \<and>
          fill_quantity (fill_objs st' ! fr) = 70 \<and>
          status (order_objs st' ! 0) = FILLED))"
proof -
  have dq: "list_all default_filled_qty sell_120_ops" by (simp add: sell_120_ops_def)
  have pc: "list_all positive_cap sell_120_ops"
    by (simp add: sell_120_ops_def cap_positive_def)
  have bc: "cap_positive (Some 50)" by (simp add: cap_positive_def)
  have os: "orders_of (book sell_120_after_bar1) ''AAPL'' = [0]"
    by (simp add: sell_120_after_bar1_def orders_of_def)
  have d: "distinct (orders_of (book sell_120_after_bar1) ''AAPL'')" by (simp add: os)
  have r: "0 \<in> set (orders_of (book sell_120_after_bar1) ''AAPL'')" by (simp add: os)
  have op: "is_open (maybe_timeout (order_objs (objs sell_120_after_bar1) ! 0) 2)"
    by (simp add: sell_120_after_bar1_def maybe_timeout_def is_open_def)
  have el: "fill_price_of (maybe_timeout (order_objs (objs sell_120_after_bar1) ! 0) 2)
              99 (201 / 2) 98 = Inr (Some 99)"
    by (simp add: sell_120_after_bar1_def maybe_timeout_def fill_price_of_def)
  have fl: "fills (order_objs (objs sell_120_after_bar1) ! 0) = [0]"
    "remaining (order_objs (objs sell_120_after_bar1) ! 0) = 70"
    by (simp_all add: sell_120_after_bar1_def remaining_def)
  from first_fill_cap[OF sell_120_bar1 dq pc bc d r op el, of 0 None]
  obtain st' fs fr where
    pb: "process_bar (objs sell_120_after_bar1) (book sell_120_after_bar1)
           ''AAPL'' 2 99 (201 / 2) 98 0 None = Inr (st', fs)"
    and fr: "fr \<in> set fs" "fills (order_objs st' ! 0) = [0, fr]"
      "fill_quantity (fill_objs st' ! fr) = 70"
    unfolding fl by auto
  have "status (order_objs st' ! 0) = FILLED"
    using pb by (auto simp: sell_120_after_bar1_def engine_eval)
  then have "\<exists>st' fs. process_bar (objs sell_120_after_bar1) (book sell_120_after_bar1)
               ''AAPL'' 2 99 (201 / 2) 98 0 None = Inr (st', fs) \<and>
      (\<exists>fr\<in>set fs. fills (order_objs st' ! 0) = [0, fr] \<and>
          fill_quantity (fill_objs st' ! fr) = 70 \<and>
          status (order_objs st' ! 0) = FILLED)"
    using pb fr by blast
  moreover have "map (\<lambda>fr. fill_quantity (fill_objs (objs sell_120_after_bar1) ! fr))
     (fills (order_objs (objs sell_120_after_bar1) ! 0)) = [50]"
    "status (order_objs (objs sell_120_after_bar1) ! 0) = PARTIALLY_FILLED"
    by (simp_all add: sell_120_after_bar1_def)
  ultimately show ?thesis using sell_120_bar1 fl(2) by blast
qed

section \<open>The ledger\<close>

lemma pos_quantity_apply_fill:
  "pos_quantity (position_of (apply_fill st pm fr) symb) =
     (if symb = fill_symbol (fill_objs st ! fr)
      then pos_quantity (position_of pm symb) +
             direction (fill_objs st ! fr) * fill_quantity (fill_objs st ! fr)
      else pos_quantity (position_of pm symb))"
  by (simp add: apply_fill_def position_of_def Let_def update_conv')

lemma cash_apply_fill:
  "cash (apply_fill st pm fr) =
     cash pm - of_int (direction (fill_objs st ! fr)) *
       (fill_price (fill_objs st ! fr) * of_int (fill_quantity (fill_objs st ! fr)) +
        fill_commission (fill_objs st ! fr))"
  by (simp add: apply_fill_def Let_def)

lemma pos_quantity_foldl:
  "pos_quantity (position_of (foldl (apply_fill st) pm frs) symb) =
     pos_quantity (position_of pm symb) + signed_sum st symb frs"
proof (induction frs arbitrary: pm)
  case Nil
  then show ?case by (simp add: signed_sum_def)
next
  case (Cons fr frs)
  have "signed_sum st symb (fr # frs) =
          (if fill_symbol (fill_objs st ! fr) = symb
           then direction (fill_objs st ! fr) * fill_quantity (fill_objs st ! fr) else 0) +
          signed_sum st symb frs"
    by (simp add: signed_sum_def)
  then show ?case using Cons.IH[of "apply_fill st pm fr"]
    by (auto simp: pos_quantity_apply_fill)
qed

text \<open>
  Claim C2. Applying a fill to the ledger changes the position of the fill's symbol by
  \<open>+quantity\<close> for a BUY and by \<open>-quantity\<close> for a SELL, leaves every other position as it
  was, and sets cash to \<open>cash - direction * (price * quantity + commission)\<close>, with direction
  \<open>+1\<close> for BUY and \<open>-1\<close> for SELL: cash goes down by \<open>price * quantity + commission\<close> on a BUY
  and up by the same amount, commission included, on a SELL. Starting from a fresh ledger,
  after any sequence of fills the position of a symbol is the signed sum of the fills on
  that symbol.
\<close>

theorem apply_fill_position_and_cash:
  "(fill_type (fill_objs st ! fr) = BUY \<longrightarrow>
      pos_quantity (position_of (apply_fill st pm fr) (fill_symbol (fill_objs st ! fr))) =
        pos_quantity (position_of pm (fill_symbol (fill_objs st ! fr))) +
        fill_quantity (fill_objs st ! fr) \<and>
      cash (apply_fill st pm fr) =
        cash pm - (fill_price (fill_objs st ! fr) * of_int (fill_quantity (fill_objs st ! fr)) +
                   fill_commission (fill_objs st ! fr))) \<and>
   (fill_type (fill_objs st ! fr) = SELL \<longrightarrow>
      pos_quantity (position_of (apply_fill st pm fr) (fill_symbol (fill_objs st ! fr))) =
        pos_quantity (position_of pm (fill_symbol (fill_objs st ! fr))) -
        fill_quantity (fill_objs st ! fr) \<and>
      cash (apply_fill st pm fr) =
        cash pm + (fill_price (fill_objs st ! fr) * of_int (fill_quantity (fill_objs st ! fr)) +
                   fill_commission (fill_objs st ! fr))) \<and>
   cash (apply_fill st pm fr) =
     cash pm - of_int (direction (fill_objs st ! fr)) *
       (fill_price (fill_objs st ! fr) * of_int (fill_quantity (fill_objs st ! fr)) +
        fill_commission (fill_objs st ! fr)) \<and>
   (symb \<noteq> fill_symbol (fill_objs st ! fr) \<longrightarrow>
      position_of (apply_fill st pm fr) symb = position_of pm symb) \<and>
   pos_quantity (position_of (foldl (apply_fill st) (PortfolioManager_init c) frs) symb) =
     signed_sum st symb frs"
proof -
  have seq: "pos_quantity (position_of (foldl (apply_fill st) (PortfolioManager_init c) frs) symb) =
     signed_sum st symb frs"
    using pos_quantity_foldl[of st "PortfolioManager_init c" frs symb]
    by (simp add: position_of_def PortfolioManager_init_def)
  have other: "symb \<noteq> fill_symbol (fill_objs st ! fr) \<longrightarrow>
      position_of (apply_fill st pm fr) symb = position_of pm symb"
    by (simp add: apply_fill_def position_of_def Let_def update_conv')
  show ?thesis
    using seq other
    by (simp add: pos_quantity_apply_fill cash_apply_fill direction_def)
qed


theorem apply_fill_position_and_cash_witness:
  "cash (apply_fill ledger_store (PortfolioManager_init 100000) 0) = 98999 \<and>
   pos_quantity (position_of (apply_fill ledger_store (PortfolioManager_init 100000) 0) ''AAPL'') = 10 \<and>
   cash (apply_fill ledger_store (apply_fill ledger_store (PortfolioManager_init 100000) 0) 1) = 99440 \<and>
   pos_quantity (position_of
     (apply_fill ledger_store (apply_fill ledger_store (PortfolioManager_init 100000) 0) 1) ''AAPL'') = 6 \<and>
   pos_quantity (position_of
     (foldl (apply_fill ledger_store) (PortfolioManager_init 100000) [0, 1]) ''AAPL'') = 6"
proof -
  let ?pm0 = "PortfolioManager_init 100000"
  let ?pm1 = "apply_fill ledger_store ?pm0 0"
  have f0: "fill_objs ledger_store ! 0 =
      \<lparr>fill_symbol = ''AAPL'', fill_time = 1, fill_type = BUY, fill_quantity = 10,
       fill_price = 100, fill_commission = 1\<rparr>"
    and f1: "fill_objs ledger_store ! Suc 0 =
      \<lparr>fill_symbol = ''AAPL'', fill_time = 2, fill_type = SELL, fill_quantity = 4,
       fill_price = 110, fill_commission = 1\<rparr>"
    by (simp_all add: ledger_store_def)
  have p0: "cash ?pm0 = 100000" "pos_quantity (position_of ?pm0 ''AAPL'') = 0"
    by (simp_all add: PortfolioManager_init_def position_of_def)
  note t0 = apply_fill_position_and_cash[where st=ledger_store and fr=0 and pm="?pm0"
      and symb="''AAPL''" and c=100000 and frs="[0, 1]"]
  note t1 = apply_fill_position_and_cash[where st=ledger_store and fr=1 and pm="?pm1"
      and symb="''AAPL''" and c=100000 and frs="[0, 1]"]
  have a: "cash ?pm1 = 98999" "pos_quantity (position_of ?pm1 ''AAPL'') = 10"
    using t0 p0 by (simp_all add: f0)
  have b: "cash (apply_fill ledger_store ?pm1 1) = 99440"
    "pos_quantity (position_of (apply_fill ledger_store ?pm1 1) ''AAPL'') = 6"
    using t1 a by (simp_all add: f1)
  have c: "pos_quantity (position_of (foldl (apply_fill ledger_store) ?pm0 [0, 1]) ''AAPL'') = 6"
    using t0 by (simp add: signed_sum_def f0 f1 direction_def)
  show ?thesis using a b c by simp
qed

section \<open>The paper broker: reset and cancellation\<close>

lemmas broker_eval =
  on_price_tick_def submit_order_def PaperBroker_init_def PortfolioManager_init_def
  apply_fill_def apply_slippage_def position_of_def direction_def total_equity_def
  market_value_def mark_def margin_used_def reset_def

text \<open>
  Claim C9, as the code has it. After \<^verbatim>\<open>reset()\<close> the latency queue and the fills list are
  empty, the new book is empty and keeps the cap of the old one, the new ledger has no
  positions, and its cash is \<^verbatim>\<open>cash + margin_used\<close>, that is \<open>max cash 0\<close>: the old cash when
  that was not negative, and 0 when it was (the margin loan is written off, not carried
  over).
\<close>

theorem reset_effect:
  "delay_queue (reset b) = [] \<and> broker_fills (reset b) = [] \<and>
   orders (order_book (reset b)) = [] \<and> history (order_book (reset b)) = [] \<and>
   max_qty_per_fill (order_book (reset b)) = max_qty_per_fill (order_book b) \<and>
   positions (portfolio (reset b)) = [] \<and>
   cash (portfolio (reset b)) = max (cash (portfolio b)) 0 \<and>
   (0 \<le> cash (portfolio b) \<longrightarrow> cash (portfolio (reset b)) = cash (portfolio b)) \<and>
   (cash (portfolio b) < 0 \<longrightarrow> cash (portfolio (reset b)) = 0)"
  by (simp add: reset_def OrderBook_init_def PortfolioManager_init_def margin_used_def max_def)

theorem reset_effect_witness:
  "cash (portfolio (reset (PaperBroker_init 100000 60 (1 / 1000) (Some 50)))) = 100000 \<and>
   max_qty_per_fill (order_book (reset (PaperBroker_init 100000 60 (1 / 1000) (Some 50)))) = Some 50 \<and>
   delay_queue (reset queued_broker) = [] \<and>
   cash (portfolio (reset (PaperBroker_init (- 5) 0 0 None))) = 0"
proof -
  note t1 = reset_effect[of "PaperBroker_init 100000 60 (1 / 1000) (Some 50)"]
  note t2 = reset_effect[of queued_broker]
  note t3 = reset_effect[of "PaperBroker_init (- 5) 0 0 None"]
  have c1: "cash (portfolio (PaperBroker_init 100000 60 (1 / 1000) (Some 50))) = 100000"
    "max_qty_per_fill (order_book (PaperBroker_init 100000 60 (1 / 1000) (Some 50))) = Some 50"
    "cash (portfolio (PaperBroker_init (- 5) 0 0 None)) = - 5"
    by (simp_all add: PaperBroker_init_def PortfolioManager_init_def OrderBook_init_def)
  show ?thesis using t1 t2 t3 by (simp add: c1)
qed

text \<open>
  Claim C9 as stated (the new cash equals the old cash for every prior value, negative
  included) fails: a broker with 100 in cash buys 2 at 100, which leaves cash at \<open>-100\<close>;
  after \<^verbatim>\<open>reset()\<close> cash is 0.
\<close>

theorem reset_negative_cash_counterexample:
  "\<exists>st b fs. on_price_tick margin_store margin_broker ''AAPL'' 0 100 100 100 0 = Inr (st, b, fs) \<and>
      cash (portfolio b) = - 100 \<and> cash (portfolio (reset b)) = 0 \<and>
      cash (portfolio (reset b)) \<noteq> cash (portfolio b)"
  by (simp add: margin_store_def margin_broker_def broker_eval add_order_def
      OrderBook_init_def orders_of_def process_bar_def process_order_def Let_def
      is_open_def maybe_timeout_def fill_price_of_def fill_qty_def remaining_def
      record_fill_def)


lemma remove_queued_None:
  "(remove_queued st oid q = None) = (\<forall>e\<in>set q. order_id (order_objs st ! snd e) \<noteq> oid)"
  by (induction st oid q rule: remove_queued.induct) (auto split: option.splits)

lemma remove_queued_Some:
  "\<exists>e\<in>set q. order_id (order_objs st ! snd e) = oid \<Longrightarrow>
   \<exists>pre ts r post. q = pre @ (ts, r) # post \<and> order_id (order_objs st ! r) = oid \<and>
      (\<forall>e\<in>set pre. order_id (order_objs st ! snd e) \<noteq> oid) \<and>
      remove_queued st oid q = Some (pre @ post)"
proof (induction st oid q rule: remove_queued.induct)
  case (1 st oid)
  then show ?case by simp
next
  case (2 st oid ts r q)
  show ?case
  proof (cases "order_id (order_objs st ! r) = oid")
    case True
    then have "(ts, r) # q = [] @ (ts, r) # q \<and> order_id (order_objs st ! r) = oid \<and>
      (\<forall>e\<in>set []. order_id (order_objs st ! snd e) \<noteq> oid) \<and>
      remove_queued st oid ((ts, r) # q) = Some ([] @ q)" by simp
    then show ?thesis by blast
  next
    case False
    then have "\<exists>e\<in>set q. order_id (order_objs st ! snd e) = oid" using "2.prems" by auto
    from "2.IH"[OF False this] obtain pre ts' r' post where
      q: "q = pre @ (ts', r') # post" and i: "order_id (order_objs st ! r') = oid"
      and p: "\<forall>e\<in>set pre. order_id (order_objs st ! snd e) \<noteq> oid"
      and rm: "remove_queued st oid q = Some (pre @ post)"
      by blast
    have "(ts, r) # q = ((ts, r) # pre) @ (ts', r') # post \<and>
      order_id (order_objs st ! r') = oid \<and>
      (\<forall>e\<in>set ((ts, r) # pre). order_id (order_objs st ! snd e) \<noteq> oid) \<and>
      remove_queued st oid ((ts, r) # q) = Some (((ts, r) # pre) @ post)"
      using q i p rm False by simp
    then show ?thesis by blast
  qed
qed

lemma book_cancel_marks:
  assumes "find (\<lambda>r. order_id (order_objs st ! r) = oid \<and> is_open (order_objs st ! r))
             (concat (map snd (orders ob))) = Some r"
    and "r < length (order_objs st)"
  shows "OrderBook_cancel_order st ob oid =
           (st\<lparr>order_objs := (order_objs st)[r := cancel (order_objs st ! r)]\<rparr>, True)"
    and "status (order_objs (fst (OrderBook_cancel_order st ob oid)) ! r) = CANCELLED"
proof -
  show c: "OrderBook_cancel_order st ob oid =
           (st\<lparr>order_objs := (order_objs st)[r := cancel (order_objs st ! r)]\<rparr>, True)"
    using assms(1) by (simp add: OrderBook_cancel_order_def)
  have "is_open (order_objs st ! r)" using assms(1) by (auto simp: find_Some_iff)
  then show "status (order_objs (fst (OrderBook_cancel_order st ob oid)) ! r) = CANCELLED"
    using assms(2) by (simp add: c cancel_def)
qed

text \<open>
  Claim C10. If an order with the identifier waits in the latency queue,
  \<^verbatim>\<open>PaperBroker.cancel_order\<close> removes the first such entry from the queue and returns
  \<^verbatim>\<open>True\<close>, and the store it leaves is the store it found: no order object changes, so the
  order keeps its status (PENDING for an order that was only submitted) and is not marked
  CANCELLED. Only when no queued order has the identifier does the call go to
  \<^verbatim>\<open>OrderBook.cancel_order\<close>, which does set the status of the order it finds to CANCELLED.
\<close>

theorem cancel_queued_order:
  "((\<exists>e\<in>set (delay_queue b). order_id (order_objs st ! snd e) = oid) \<longrightarrow>
      (\<exists>pre ts r post.
         delay_queue b = pre @ (ts, r) # post \<and> order_id (order_objs st ! r) = oid \<and>
         (\<forall>e\<in>set pre. order_id (order_objs st ! snd e) \<noteq> oid) \<and>
         PaperBroker_cancel_order st b oid = (st, b\<lparr>delay_queue := pre @ post\<rparr>, True))) \<and>
   ((\<forall>e\<in>set (delay_queue b). order_id (order_objs st ! snd e) \<noteq> oid) \<longrightarrow>
      PaperBroker_cancel_order st b oid =
        (fst (OrderBook_cancel_order st (order_book b) oid), b,
         snd (OrderBook_cancel_order st (order_book b) oid))) \<and>
   (\<forall>r. find (\<lambda>r. order_id (order_objs st ! r) = oid \<and> is_open (order_objs st ! r))
           (concat (map snd (orders (order_book b)))) = Some r \<and> r < length (order_objs st) \<longrightarrow>
        snd (OrderBook_cancel_order st (order_book b) oid) \<and>
        status (order_objs (fst (OrderBook_cancel_order st (order_book b) oid)) ! r) = CANCELLED)"
proof (intro conjI impI allI)
  assume "\<exists>e\<in>set (delay_queue b). order_id (order_objs st ! snd e) = oid"
  from remove_queued_Some[OF this] obtain pre ts r post where
    q: "delay_queue b = pre @ (ts, r) # post" and i: "order_id (order_objs st ! r) = oid"
    and p: "\<forall>e\<in>set pre. order_id (order_objs st ! snd e) \<noteq> oid"
    and rm: "remove_queued st oid (delay_queue b) = Some (pre @ post)"
    by blast
  have "PaperBroker_cancel_order st b oid = (st, b\<lparr>delay_queue := pre @ post\<rparr>, True)"
    using rm by (simp add: PaperBroker_cancel_order_def)
  then show "\<exists>pre ts r post.
         delay_queue b = pre @ (ts, r) # post \<and> order_id (order_objs st ! r) = oid \<and>
         (\<forall>e\<in>set pre. order_id (order_objs st ! snd e) \<noteq> oid) \<and>
         PaperBroker_cancel_order st b oid = (st, b\<lparr>delay_queue := pre @ post\<rparr>, True)"
    using q i p by blast
next
  assume "\<forall>e\<in>set (delay_queue b). order_id (order_objs st ! snd e) \<noteq> oid"
  then have "remove_queued st oid (delay_queue b) = None" by (simp add: remove_queued_None)
  then show "PaperBroker_cancel_order st b oid =
        (fst (OrderBook_cancel_order st (order_book b) oid), b,
         snd (OrderBook_cancel_order st (order_book b) oid))"
    by (simp add: PaperBroker_cancel_order_def split: prod.splits)
next
  fix r
  assume a: "find (\<lambda>r. order_id (order_objs st ! r) = oid \<and> is_open (order_objs st ! r))
           (concat (map snd (orders (order_book b)))) = Some r \<and> r < length (order_objs st)"
  then show "snd (OrderBook_cancel_order st (order_book b) oid)"
    using book_cancel_marks(1)[of st oid "order_book b" r] by simp
  from a show "status (order_objs (fst (OrderBook_cancel_order st (order_book b) oid)) ! r) = CANCELLED"
    using book_cancel_marks(2)[of st oid "order_book b" r] by simp
qed


lemma queued_broker_queue: "delay_queue queued_broker = [(60, 0)]"
  by (simp add: queued_broker_def submit_order_def PaperBroker_init_def)

theorem cancel_queued_order_witness:
  "PaperBroker_cancel_order limit_store queued_broker ''a1'' =
     (limit_store, queued_broker\<lparr>delay_queue := []\<rparr>, True) \<and>
   status (order_objs limit_store ! 0) = PENDING \<and>
   status (order_objs (fst (PaperBroker_cancel_order limit_store
      (queued_broker\<lparr>delay_queue := [], order_book := limit_book\<rparr>) ''a1'')) ! 0) = CANCELLED"
proof -
  have id0: "order_id (order_objs limit_store ! 0) = ''a1''"
    and st0: "status (order_objs limit_store ! 0) = PENDING"
    and len: "0 < length (order_objs limit_store)"
    by (simp_all add: limit_store_simps limit_buy_95_def)
  note t1 = cancel_queued_order[where b=queued_broker and st=limit_store and oid="''a1''"]
  have "\<exists>e\<in>set (delay_queue queued_broker). order_id (order_objs limit_store ! snd e) = ''a1''"
    by (simp add: queued_broker_queue id0)
  with t1 obtain pre ts r post where
    q: "delay_queue queued_broker = pre @ (ts, r) # post"
    and c: "PaperBroker_cancel_order limit_store queued_broker ''a1'' =
              (limit_store, queued_broker\<lparr>delay_queue := pre @ post\<rparr>, True)"
    by blast
  from q have "pre = [] \<and> post = []"
    by (cases pre) (simp_all add: queued_broker_queue)
  then have a: "PaperBroker_cancel_order limit_store queued_broker ''a1'' =
     (limit_store, queued_broker\<lparr>delay_queue := []\<rparr>, True)"
    using c by simp
  let ?b = "queued_broker\<lparr>delay_queue := [], order_book := limit_book\<rparr>"
  note t2 = cancel_queued_order[where b="?b" and st=limit_store and oid="''a1''"]
  have f: "find (\<lambda>r. order_id (order_objs limit_store ! r) = ''a1'' \<and>
                    is_open (order_objs limit_store ! r))
             (concat (map snd (orders (order_book ?b)))) = Some 0"
    by (simp add: limit_book_def add_order_def OrderBook_init_def orders_of_def Let_def
        limit_store_simps limit_buy_95_def is_open_def)
  have "PaperBroker_cancel_order limit_store ?b ''a1'' =
        (fst (OrderBook_cancel_order limit_store (order_book ?b) ''a1''), ?b,
         snd (OrderBook_cancel_order limit_store (order_book ?b) ''a1''))"
    using t2 by simp
  moreover have "status (order_objs (fst (OrderBook_cancel_order limit_store (order_book ?b) ''a1'')) ! 0)
        = CANCELLED"
    using t2 f len by blast
  ultimately have b: "status (order_objs (fst (PaperBroker_cancel_order limit_store ?b ''a1'')) ! 0)
        = CANCELLED" by simp
  show ?thesis using a st0 b by simp
qed

section \<open>The paper broker: the latency queue\<close>

lemma flush_queue_eq:
  "flush_queue st time q ob =
     (dropWhile (\<lambda>e. fst e \<le> time) q,
      foldl (add_order st) ob (map snd (takeWhile (\<lambda>e. fst e \<le> time) q)))"
  by (induction st time q ob rule: flush_queue.induct) simp_all

lemma sorted_takeWhile_filter:
  "sorted (map fst q) \<Longrightarrow>
   takeWhile (\<lambda>e. fst e \<le> (time::int)) q = filter (\<lambda>e. fst e \<le> time) q \<and>
   dropWhile (\<lambda>e. fst e \<le> time) q = filter (\<lambda>e. \<not> fst e \<le> time) q"
proof (induction q)
  case Nil
  then show ?case by simp
next
  case (Cons x q)
  show ?case
  proof (cases "fst x \<le> time")
    case True
    then show ?thesis using Cons by simp
  next
    case False
    then have "\<forall>e\<in>set q. \<not> fst e \<le> time" using Cons.prems by fastforce
    then have "filter (\<lambda>e. fst e \<le> time) q = []" "filter (\<lambda>e. \<not> fst e \<le> time) q = q"
      by (simp_all add: filter_empty_conv filter_id_conv)
    then show ?thesis using False by simp
  qed
qed

lemma orders_of_add_order:
  "orders_of (add_order st ob r) s =
     (if s = symbol (order_objs st ! r) then orders_of ob s @ [r] else orders_of ob s)"
  by (simp add: add_order_def orders_of_def Let_def update_conv')

lemma orders_of_foldl_add_order:
  "orders_of (foldl (add_order st) ob rs) s =
     orders_of ob s @ filter (\<lambda>r. symbol (order_objs st ! r) = s) rs"
  by (induction rs arbitrary: ob) (auto simp: orders_of_add_order)

lemma cap_foldl_add_order:
  "max_qty_per_fill (foldl (add_order st) ob rs) = max_qty_per_fill ob"
  by (induction rs arbitrary: ob) (simp_all add: add_order_def Let_def)

lemma settle_fills_orders:
  "order_objs (fst (settle_fills s frs st pm)) = order_objs st"
  by (induction s frs st pm rule: settle_fills.induct) (simp_all add: Let_def)

lemma on_price_tick_parts:
  assumes "on_price_tick st b symb time price high low commission = Inr (st', b', fs)"
  shows "delay_queue b' = dropWhile (\<lambda>e. fst e \<le> time) (delay_queue b)"
    and "order_book b' = foldl (add_order st) (order_book b)
           (map snd (takeWhile (\<lambda>e. fst e \<le> time) (delay_queue b)))"
    and "\<exists>st1. process_bar st (order_book b') symb time price high low commission None = Inr (st1, fs) \<and>
           st' = fst (settle_fills (slippage_pct b) fs st1 (portfolio b)) \<and>
           portfolio b' = snd (settle_fills (slippage_pct b) fs st1 (portfolio b))"
  using assms
  by (auto simp: on_price_tick_def flush_queue_eq Let_def split: sum.splits prod.splits)

lemma on_price_tick_untouched:
  assumes t: "on_price_tick st b symb time price high low commission = Inr (st', b', fs)"
    and r: "r \<notin> set (orders_of (order_book b') symb)"
  shows "order_objs st' ! r = order_objs st ! r"
proof -
  from on_price_tick_parts(3)[OF t] obtain st1 where
    pb: "process_bar st (order_book b') symb time price high low commission None = Inr (st1, fs)"
    and s: "st' = fst (settle_fills (slippage_pct b) fs st1 (portfolio b))"
    by blast
  have "order_objs st1 ! r = order_objs st ! r"
    using pb r process_orders_frame by (auto simp: process_bar_def)
  then show ?thesis using s by (simp add: settle_fills_orders)
qed


lemma submit_order_queue:
  "delay_queue (submit_order b r (Some now) utcnow) = delay_queue b @ [(now + latency b, r)]"
  by (simp add: submit_order_def)

lemma submit_order_sorted:
  assumes "sorted (map fst (delay_queue b))"
    and "\<forall>e\<in>set (delay_queue b). fst e \<le> now + latency b"
  shows "sorted (map fst (delay_queue (submit_order b r (Some now) utcnow)))"
  using assms by (auto simp: submit_order_queue sorted_append)

lemma remove_queued_sorted:
  "remove_queued st oid q = Some q' \<Longrightarrow> sorted (map fst q) \<Longrightarrow> sorted (map fst q')"
proof (induction st oid q arbitrary: q' rule: remove_queued.induct)
  case (1 st oid)
  then show ?case by simp
next
  case (2 st oid ts r q)
  show ?case
  proof (cases "order_id (order_objs st ! r) = oid")
    case True
    then show ?thesis using "2.prems" by simp
  next
    case False
    then obtain q1 where q1: "remove_queued st oid q = Some q1" and q': "q' = (ts, r) # q1"
      using "2.prems"(1) by (auto split: option.splits)
    have s1: "sorted (map fst q1)" using "2.IH"[OF False q1] "2.prems"(2) by simp
    have "set q1 \<subseteq> set q"
      using remove_queued_Some[of q st oid] q1 remove_queued_None[of st oid q] by auto
    then have "\<forall>e\<in>set q1. ts \<le> fst e" using "2.prems"(2) by auto
    then show ?thesis using s1 q' by simp
  qed
qed

text \<open>
  The latency queue. \<^verbatim>\<open>submit_order(order, now)\<close> appends
  \<open>(now + latency, order)\<close> to the queue. \<^verbatim>\<open>on_price_tick\<close> at \<open>time\<close> pops entries from
  the head of the queue for as long as the head is ready: the queue it leaves is
  \<open>dropWhile ready\<close>, and the orders of the entries it popped (\<open>takeWhile ready\<close>, each with
  a ready time at most \<open>time\<close>) are appended to the book's lists, in queue order. An order
  that is not in the book and has no queue entry ready at \<open>time\<close> is not in the book after
  the tick either, and the tick leaves the order object untouched: nothing is executed
  before its ready time. When the queue is in the order of the ready times (which
  \<^verbatim>\<open>submit_order\<close> keeps if each \<open>now + latency\<close> is at least the ready times already
  queued, and which a tick and a cancellation keep), the popped entries are exactly the entries with a ready time at most \<open>time\<close>:
  each of them is then in the book's list for its symbol and gone from the queue.
\<close>

theorem latency_queue_flush:
  "delay_queue (submit_order b r (Some now) utcnow) = delay_queue b @ [(now + latency b, r)] \<and>
   (sorted (map fst (delay_queue b)) \<and> (\<forall>e\<in>set (delay_queue b). fst e \<le> now + latency b) \<longrightarrow>
      sorted (map fst (delay_queue (submit_order b r (Some now) utcnow)))) \<and>
   (on_price_tick st b symb time price high low commission = Inr (st', b', fs) \<longrightarrow>
      delay_queue b' = dropWhile (\<lambda>e. fst e \<le> time) (delay_queue b) \<and>
      (\<forall>s. orders_of (order_book b') s =
            orders_of (order_book b) s @
            filter (\<lambda>r. symbol (order_objs st ! r) = s)
              (map snd (takeWhile (\<lambda>e. fst e \<le> time) (delay_queue b)))) \<and>
      (\<forall>r'. r' \<notin> set (orders_of (order_book b) symb) \<and>
            (\<forall>e\<in>set (delay_queue b). snd e = r' \<longrightarrow> time < fst e) \<longrightarrow>
            r' \<notin> set (orders_of (order_book b') symb) \<and>
            order_objs st' ! r' = order_objs st ! r') \<and>
      (sorted (map fst (delay_queue b)) \<longrightarrow>
         takeWhile (\<lambda>e. fst e \<le> time) (delay_queue b) =
           filter (\<lambda>e. fst e \<le> time) (delay_queue b) \<and>
         delay_queue b' = filter (\<lambda>e. \<not> fst e \<le> time) (delay_queue b) \<and>
         sorted (map fst (delay_queue b')) \<and>
         (\<forall>e\<in>set (delay_queue b). fst e \<le> time \<longrightarrow>
            snd e \<in> set (orders_of (order_book b') (symbol (order_objs st ! snd e))) \<and>
            e \<notin> set (delay_queue b'))))"
proof (intro conjI impI)
  show "delay_queue (submit_order b r (Some now) utcnow) = delay_queue b @ [(now + latency b, r)]"
    by (rule submit_order_queue)
next
  assume "sorted (map fst (delay_queue b)) \<and> (\<forall>e\<in>set (delay_queue b). fst e \<le> now + latency b)"
  then show "sorted (map fst (delay_queue (submit_order b r (Some now) utcnow)))"
    using submit_order_sorted by blast
next
  assume t: "on_price_tick st b symb time price high low commission = Inr (st', b', fs)"
  let ?ready = "takeWhile (\<lambda>e. fst e \<le> time) (delay_queue b)"
  show dq: "delay_queue b' = dropWhile (\<lambda>e. fst e \<le> time) (delay_queue b)"
    using on_price_tick_parts(1)[OF t] .
  show oo: "\<forall>s. orders_of (order_book b') s =
            orders_of (order_book b) s @
            filter (\<lambda>r. symbol (order_objs st ! r) = s) (map snd ?ready)"
    using on_price_tick_parts(2)[OF t] by (simp add: orders_of_foldl_add_order)
  show "\<forall>r'. r' \<notin> set (orders_of (order_book b) symb) \<and>
            (\<forall>e\<in>set (delay_queue b). snd e = r' \<longrightarrow> time < fst e) \<longrightarrow>
            r' \<notin> set (orders_of (order_book b') symb) \<and>
            order_objs st' ! r' = order_objs st ! r'"
  proof (intro allI impI)
    fix r'
    assume a: "r' \<notin> set (orders_of (order_book b) symb) \<and>
               (\<forall>e\<in>set (delay_queue b). snd e = r' \<longrightarrow> time < fst e)"
    have "r' \<notin> snd ` set ?ready"
    proof
      assume "r' \<in> snd ` set ?ready"
      then obtain e where e: "e \<in> set ?ready" "snd e = r'" by auto
      then have "fst e \<le> time" "e \<in> set (delay_queue b)"
        by (auto dest: set_takeWhileD)
      then show False using a e(2) by auto
    qed
    then have n: "r' \<notin> set (orders_of (order_book b') symb)" using a oo by auto
    from on_price_tick_untouched[OF t n] n
    show "r' \<notin> set (orders_of (order_book b') symb) \<and> order_objs st' ! r' = order_objs st ! r'"
      by simp
  qed
  assume s: "sorted (map fst (delay_queue b))"
  note tf = sorted_takeWhile_filter[OF s, of time]
  show "?ready = filter (\<lambda>e. fst e \<le> time) (delay_queue b)" using tf by simp
  show df: "delay_queue b' = filter (\<lambda>e. \<not> fst e \<le> time) (delay_queue b)"
    using tf dq by simp
  show "sorted (map fst (delay_queue b'))"
    unfolding df using s by (simp add: sorted_filter)
  show "\<forall>e\<in>set (delay_queue b). fst e \<le> time \<longrightarrow>
            snd e \<in> set (orders_of (order_book b') (symbol (order_objs st ! snd e))) \<and>
            e \<notin> set (delay_queue b')"
    using oo tf df by auto
qed


lemmas tick_eval =
  broker_eval add_order_def OrderBook_init_def orders_of_def process_bar_def
  process_order_def Let_def is_open_def maybe_timeout_def fill_price_of_def fill_qty_def
  remaining_def record_fill_def

text \<open>
  Claim C7. Every tick is to move into the book exactly the queue entries whose ready time
  is at most the tick's time, so that an order submitted at \<open>T\<close> with latency \<open>L\<close> is
  matchable on the first tick at a time of at least \<open>T + L\<close>; the comment in
  \<^verbatim>\<open>on_price_tick\<close> says the same (``flush any queued orders that have cleared latency
  window''), and so does the docstring of \<^verbatim>\<open>submit_order\<close>. The loop only looks at the
  head of the queue. With latency 10, one order submitted at 100 and then another at 50, the
  queue is \<open>[(110, _), (60, _)]\<close>. A tick at 70 stops at the head: the second order,
  ready since 60, stays in the queue, is not in the book and is not matched. By the
  preceding theorem the code does what the claim says whenever the queue is in the order of
  the ready times.
\<close>

theorem ready_order_stuck_behind_head:
  "\<exists>st' b' fs.
     on_price_tick two_orders_store out_of_order_broker ''AAPL'' 70 100 100 100 0 =
       Inr (st', b', fs) \<and>
     delay_queue out_of_order_broker = [(110, 0), (60, 1)] \<and>
     delay_queue b' = [(110, 0), (60, 1)] \<and>
     orders_of (order_book b') ''AAPL'' = [] \<and> fs = [] \<and>
     status (order_objs st' ! 1) = PENDING \<and> fills (order_objs st' ! 1) = []"
  by (simp add: two_orders_store_def out_of_order_broker_def tick_eval)

theorem latency_queue_flush_example:
  "(\<exists>st' b' fs.
      on_price_tick limit_store queued_broker ''AAPL'' 30 100 101 99 0 = Inr (st', b', fs) \<and>
      delay_queue b' = [(60, 0)] \<and> orders_of (order_book b') ''AAPL'' = [] \<and>
      order_objs st' ! 0 = order_objs limit_store ! 0) \<and>
   (\<exists>st' b' fs.
      on_price_tick limit_store queued_broker ''AAPL'' 61 100 101 99 0 = Inr (st', b', fs) \<and>
      delay_queue b' = [] \<and> orders_of (order_book b') ''AAPL'' = [0])"
proof -
  have q: "delay_queue queued_broker = [(60, 0)]" by (rule queued_broker_queue)
  have ob: "orders_of (order_book queued_broker) s = []" for s
    by (simp add: queued_broker_def submit_order_def PaperBroker_init_def OrderBook_init_def
        orders_of_def)
  have sy: "symbol (order_objs limit_store ! 0) = ''AAPL''"
    by (simp add: limit_store_simps limit_buy_95_def)
  have "\<exists>st' b' fs. on_price_tick limit_store queued_broker ''AAPL'' 30 100 101 99 0 = Inr (st', b', fs)"
    by (simp add: queued_broker_def limit_store_def limit_buy_95_def new_order_def
        empty_store_def tick_eval)
  then obtain st1 b1 fs1 where
    t1: "on_price_tick limit_store queued_broker ''AAPL'' 30 100 101 99 0 = Inr (st1, b1, fs1)"
    by blast
  from latency_queue_flush[where b=queued_broker and st=limit_store and symb="''AAPL''"
      and time=30 and price=100 and high=101 and low=99 and commission=0
      and st'=st1 and b'=b1 and fs=fs1 and r=0 and now=0 and utcnow=0] t1
  have a: "delay_queue b1 = [(60, 0)]" "orders_of (order_book b1) ''AAPL'' = []"
    "order_objs st1 ! 0 = order_objs limit_store ! 0"
    by (simp_all add: q ob)
  have "\<exists>st' b' fs. on_price_tick limit_store queued_broker ''AAPL'' 61 100 101 99 0 = Inr (st', b', fs)"
    by (simp add: queued_broker_def limit_store_def limit_buy_95_def new_order_def
        empty_store_def tick_eval)
  then obtain st2 b2 fs2 where
    t2: "on_price_tick limit_store queued_broker ''AAPL'' 61 100 101 99 0 = Inr (st2, b2, fs2)"
    by blast
  from latency_queue_flush[where b=queued_broker and st=limit_store and symb="''AAPL''"
      and time=61 and price=100 and high=101 and low=99 and commission=0
      and st'=st2 and b'=b2 and fs=fs2 and r=0 and now=0 and utcnow=0] t2
  have b: "delay_queue b2 = []" "orders_of (order_book b2) ''AAPL'' = [0]"
    by (simp_all add: q ob sy)
  show ?thesis using t1 a t2 b by blast
qed

section \<open>The paper broker: slippage\<close>











section \<open>The equity curve of a replay\<close>

lemma same_config_refl [simp]: "same_config eng eng"
  by (simp add: same_config_def)

lemma same_config_trans: "same_config a b \<Longrightarrow> same_config b c \<Longrightarrow> same_config a c"
  by (simp add: same_config_def)

lemma process_signals_config:
  "process_signals env st eng symb ty = Inr (st', eng') \<Longrightarrow> same_config eng eng'"
  by (auto simp: process_signals_def same_config_def new_order_def
      split: if_splits sum.splits prod.splits)

lemma signals_for_config:
  "signals_for env strat dt syms st eng = Inr (st', eng') \<Longrightarrow> same_config eng eng'"
proof (induction syms arbitrary: st eng)
  case Nil
  then show ?case by simp
next
  case (Cons symb rest)
  from Cons.prems obtain df where df: "map_of (bt_data eng) symb = Some df"
    by (auto split: option.splits)
  show ?case
  proof (cases "generate_signals strat (filter (\<lambda>row. fst row \<le> dt) df) symb")
    case None
    then show ?thesis using Cons df by simp
  next
    case (Some ty)
    then obtain st1 eng1 where p: "process_signals env st eng symb ty = Inr (st1, eng1)"
      and r: "signals_for env strat dt rest st1 eng1 = Inr (st', eng')"
      using Cons.prems df by (auto split: sum.splits)
    from same_config_trans[OF process_signals_config[OF p] Cons.IH[OF r]] show ?thesis .
  qed
qed

lemma run_strategies_config:
  "run_strategies env dt strats st eng = Inr (st', eng') \<Longrightarrow> same_config eng eng'"
proof (induction strats arbitrary: st eng)
  case Nil
  then show ?case by simp
next
  case (Cons strat rest)
  from Cons.prems obtain st1 eng1 where
    p: "signals_for env strat dt (required_syms strat (bt_symbols eng)) st eng = Inr (st1, eng1)"
    and r: "run_strategies env dt rest st1 eng1 = Inr (st', eng')"
    by (auto split: sum.splits)
  from same_config_trans[OF signals_for_config[OF p] Cons.IH[OF r]] show ?case .
qed

lemma execute_orders_config:
  "execute_orders dt syms st eng = Inr (st', eng') \<Longrightarrow> same_config eng eng'"
proof (induction syms arbitrary: st eng)
  case Nil
  then show ?case by simp
next
  case (Cons symb rest)
  show ?case
  proof (cases "bar_at eng symb dt")
    case None
    then show ?thesis using Cons by simp
  next
    case (Some row)
    then obtain st1 fs where
      r: "execute_orders dt rest st1
            (eng\<lparr>bt_portfolio := foldl (apply_fill st1) (bt_portfolio eng) fs\<rparr>) = Inr (st', eng')"
      using Cons.prems by (auto simp: Let_def split: sum.splits)
    from Cons.IH[OF r] show ?thesis by (simp add: same_config_def)
  qed
qed

lemma price_at_config: "same_config eng eng' \<Longrightarrow> price_at eng' symb dt = price_at eng symb dt"
  by (simp add: same_config_def price_at_def bar_at_def)

lemma mark_prices_now:
  "mark (prices_now eng dt) symb =
     (if symb \<in> set (bt_symbols eng)
      then (case price_at eng symb dt of None \<Rightarrow> 0 | Some p \<Rightarrow> p) else 0)"
  by (simp add: mark_def prices_now_def)

lemma run_step_sample:
  assumes "run_step env dt (st, eng, curve) = Inr (st', eng', curve')"
  shows "same_config eng eng'"
    and "generate_market_events eng dt = [] \<Longrightarrow> curve' = curve \<and> st' = st \<and> eng' = eng"
    and "generate_market_events eng dt \<noteq> [] \<Longrightarrow>
         curve' = curve @
           [(dt, cash (bt_portfolio eng') +
                 sum_list (map (\<lambda>(symb, pos). of_int (pos_quantity pos) *
                     (if symb \<in> set (bt_symbols eng)
                      then (case price_at eng symb dt of None \<Rightarrow> 0 | Some p \<Rightarrow> p) else 0))
                   (positions (bt_portfolio eng'))))]"
proof -
  show c: "same_config eng eng'"
  proof (cases "generate_market_events eng dt = []")
    case True
    then show ?thesis using assms by (simp add: run_step_def)
  next
    case False
    then obtain st1 eng1 where
      a: "run_strategies env dt (bt_strategies eng) st eng = Inr (st1, eng1)"
      and b: "execute_orders dt (bt_symbols eng1) st1 eng1 = Inr (st', eng')"
      using assms by (auto simp: run_step_def split: sum.splits)
    from same_config_trans[OF run_strategies_config[OF a] execute_orders_config[OF b]]
    show ?thesis .
  qed
  show "generate_market_events eng dt = [] \<Longrightarrow> curve' = curve \<and> st' = st \<and> eng' = eng"
    using assms by (simp add: run_step_def)
  assume ne: "generate_market_events eng dt \<noteq> []"
  then have "curve' = curve @ [(dt, total_equity (bt_portfolio eng') (prices_now eng' dt))]"
    using assms by (auto simp: run_step_def split: sum.splits)
  moreover have "mark (prices_now eng' dt) symb =
     (if symb \<in> set (bt_symbols eng)
      then (case price_at eng symb dt of None \<Rightarrow> 0 | Some p \<Rightarrow> p) else 0)" for symb
    using c price_at_config[OF c] by (simp add: mark_prices_now same_config_def)
  ultimately show "curve' = curve @
           [(dt, cash (bt_portfolio eng') +
                 sum_list (map (\<lambda>(symb, pos). of_int (pos_quantity pos) *
                     (if symb \<in> set (bt_symbols eng)
                      then (case price_at eng symb dt of None \<Rightarrow> 0 | Some p \<Rightarrow> p) else 0))
                   (positions (bt_portfolio eng'))))]"
    by (simp add: total_equity_def market_value_def)
qed


lemma events_at_date:
  assumes d: "distinct (map fst (bt_data eng))" and s: "bt_symbols eng = map fst (bt_data eng)"
    and m: "dt \<in> set (concat (map (\<lambda>(symb, df). map fst df) (bt_data eng)))"
  shows "generate_market_events eng dt \<noteq> []"
proof -
  from m obtain symb df where e: "(symb, df) \<in> set (bt_data eng)" and t: "dt \<in> fst ` set df"
    by auto
  have "map_of (bt_data eng) symb = Some df" using d e by simp
  moreover from t obtain row where "map_of df dt = Some row"
    by (cases "map_of df dt") (auto simp: map_of_eq_None_iff)
  ultimately have p: "price_at eng symb dt = Some (bar_close row)"
    by (simp add: price_at_def bar_at_def)
  have "symb \<in> set (bt_symbols eng)" using e s by force
  then have "(symb, bar_close row) \<in> set (generate_market_events eng dt)"
    using p by (force simp: generate_market_events_def)
  then show ?thesis by auto
qed

lemma run_dates_times:
  assumes "run_dates env dts (st, eng, curve) = Inr (st', eng', curve')"
    and "\<forall>dt\<in>set dts. generate_market_events eng dt \<noteq> []"
  shows "map fst curve' = map fst curve @ dts \<and> same_config eng eng'"
  using assms
proof (induction dts arbitrary: st eng curve)
  case Nil
  then show ?case by simp
next
  case (Cons dt dts)
  from Cons.prems(1) obtain st1 eng1 curve1 where
    s: "run_step env dt (st, eng, curve) = Inr (st1, eng1, curve1)"
    and r: "run_dates env dts (st1, eng1, curve1) = Inr (st', eng', curve')"
    by (auto split: sum.splits)
  have ne: "generate_market_events eng dt \<noteq> []" using Cons.prems(2) by simp
  note st = run_step_sample[OF s]
  have c1: "map fst curve1 = map fst curve @ [dt]" using st(3)[OF ne] by simp
  have ev: "generate_market_events eng1 d = generate_market_events eng d" for d
    using st(1) price_at_config[OF st(1)]
    by (simp add: generate_market_events_def same_config_def)
  have "\<forall>d\<in>set dts. generate_market_events eng1 d \<noteq> []" using Cons.prems(2) ev by simp
  from Cons.IH[OF r this] have "map fst curve' = map fst curve1 @ dts" "same_config eng1 eng'"
    by simp_all
  then show ?case using c1 same_config_trans[OF st(1)] by simp
qed

text \<open>
  Claim C5, as the code has it. An iteration of \<^verbatim>\<open>run\<close> at a timestamp where no symbol
  has a bar records nothing; otherwise it appends exactly one sample, which is the cash
  after this timestamp's fills plus, over the positions, quantity times mark, where the mark
  of a symbol is its close at this timestamp if it has a bar here and 0 if it has none
  (whatever its earlier bars). For an engine built from a dict of series, a run that returns
  has recorded one sample for each timestamp of the union of the indexes, in time order.
\<close>

theorem equity_sample_marks:
  "(run_step env dt (st, eng, curve) = Inr (st', eng', curve') \<longrightarrow>
      (generate_market_events eng dt = [] \<longrightarrow> curve' = curve) \<and>
      (generate_market_events eng dt \<noteq> [] \<longrightarrow>
         curve' = curve @
           [(dt, cash (bt_portfolio eng') +
                 sum_list (map (\<lambda>(symb, pos). of_int (pos_quantity pos) *
                     (if symb \<in> set (bt_symbols eng)
                      then (case price_at eng symb dt of None \<Rightarrow> 0 | Some p \<Rightarrow> p) else 0))
                   (positions (bt_portfolio eng'))))])) \<and>
   (distinct (map fst dat) \<and>
    run env st0 (BacktestEngine_init dat strats c comm slip prog) = Inr (st2, eng2, curve2) \<longrightarrow>
      map fst curve2 = bt_dates (BacktestEngine_init dat strats c comm slip prog) \<and>
      distinct (map fst curve2) \<and> sorted (map fst curve2))"
proof (intro conjI impI)
  assume a: "run_step env dt (st, eng, curve) = Inr (st', eng', curve')"
  { assume "generate_market_events eng dt = []"
    then show "curve' = curve" using run_step_sample(2)[OF a] by simp }
  { assume "generate_market_events eng dt \<noteq> []"
    then show "curve' = curve @
           [(dt, cash (bt_portfolio eng') +
                 sum_list (map (\<lambda>(symb, pos). of_int (pos_quantity pos) *
                     (if symb \<in> set (bt_symbols eng)
                      then (case price_at eng symb dt of None \<Rightarrow> 0 | Some p \<Rightarrow> p) else 0))
                   (positions (bt_portfolio eng'))))]"
      using run_step_sample(3)[OF a] by simp }
next
  let ?eng = "BacktestEngine_init dat strats c comm slip prog"
  assume b: "distinct (map fst dat) \<and> run env st0 ?eng = Inr (st2, eng2, curve2)"
  have d: "distinct (map fst (bt_data ?eng))" and s: "bt_symbols ?eng = map fst (bt_data ?eng)"
    and dates: "bt_dates ?eng = sort (remdups (concat (map (\<lambda>(symb, df). map fst df) (bt_data ?eng))))"
    using b by (simp_all add: BacktestEngine_init_def)
  have "\<forall>dt\<in>set (bt_dates ?eng). generate_market_events ?eng dt \<noteq> []"
    using events_at_date[OF d s] dates by simp
  from run_dates_times[OF _ this, of env st0 "[]" st2 eng2 curve2] b
  show m: "map fst curve2 = bt_dates ?eng" by (simp add: run_def)
  show "distinct (map fst curve2)" unfolding m dates by simp
  show "sorted (map fst curve2)" unfolding m dates by simp
qed


lemmas backtest_eval =
  run_def run_step_def generate_market_events_def price_at_def bar_at_def
  required_syms_def process_signals_def prices_now_def BacktestEngine_init_def
  last_close_def

lemma sparse_run:
  "\<exists>st eng.
     run fixed_env empty_store sparse_engine = Inr (st, eng, [(1, 9999), (2, 8999)]) \<and>
     cash (bt_portfolio eng) = 8999 \<and>
     map (\<lambda>(symb, pos). (symb, pos_quantity pos)) (positions (bt_portfolio eng)) = [(''B'', 100)]"
  by (simp add: sparse_engine_def sparse_data_def buy_b_def fixed_env_def backtest_eval
      tick_eval new_order_def empty_store_def Order_init_def)


lemmas sparse_eval =
  sparse_engine_def sparse_data_def buy_b_def fixed_env_def backtest_eval tick_eval
  new_order_def empty_store_def Order_init_def

text \<open>
  Claim C5 as stated (a symbol without a bar at the timestamp is marked at its prior close)
  fails. B has a bar at 1 (close 10) and none at 2; 100 of B are bought at 1. The sample at
  2 is 8999, the cash alone: B is marked at 0, not at its prior close 10, which would give
  9999.
\<close>

theorem equity_prior_close_counterexample:
  "\<exists>st eng curve.
     run fixed_env empty_store sparse_engine = Inr (st, eng, curve) \<and>
     curve = [(1, 9999), (2, 8999)] \<and>
     bar_at sparse_engine ''B'' 2 = None \<and> last_close sparse_engine ''B'' 2 = Some 10 \<and>
     pos_quantity (position_of (bt_portfolio eng) ''B'') = 100 \<and>
     pos_quantity (position_of (bt_portfolio eng) ''A'') = 0 \<and>
     cash (bt_portfolio eng) = 8999 \<and>
     snd (last curve) \<noteq> cash (bt_portfolio eng) + 100 * 10"
  by (simp add: sparse_eval)

lemma sparse_steps:
  "\<exists>st1 eng1 c1 st2 eng2 c2.
     run_step fixed_env 1 (empty_store, sparse_engine, []) = Inr (st1, eng1, c1) \<and>
     run_step fixed_env 2 (st1, eng1, c1) = Inr (st2, eng2, c2) \<and>
     generate_market_events eng1 2 \<noteq> [] \<and> price_at eng1 ''B'' 2 = None \<and>
     price_at eng1 ''A'' 2 = Some 6 \<and> bt_symbols eng1 = [''A'', ''B''] \<and>
     map fst (positions (bt_portfolio eng2)) = [''B'']"
  by (simp add: sparse_eval)

theorem equity_sample_marks_witness:
  "(\<exists>st1 eng1 c1 st2 eng2 c2.
      run_step fixed_env 1 (empty_store, sparse_engine, []) = Inr (st1, eng1, c1) \<and>
      run_step fixed_env 2 (st1, eng1, c1) = Inr (st2, eng2, c2) \<and>
      price_at eng1 ''B'' 2 = None \<and>
      c2 = c1 @ [(2, cash (bt_portfolio eng2) +
                     sum_list (map (\<lambda>(symb, pos). of_int (pos_quantity pos) * 0)
                       (positions (bt_portfolio eng2))))]) \<and>
   (\<exists>st eng curve.
      run fixed_env empty_store sparse_engine = Inr (st, eng, curve) \<and> map fst curve = [1, 2])"
proof -
  from sparse_steps obtain st1 eng1 c1 st2 eng2 c2 where
    s1: "run_step fixed_env 1 (empty_store, sparse_engine, []) = Inr (st1, eng1, c1)"
    and s2: "run_step fixed_env 2 (st1, eng1, c1) = Inr (st2, eng2, c2)"
    and ev: "generate_market_events eng1 2 \<noteq> []" and pb: "price_at eng1 ''B'' 2 = None"
    and sy: "bt_symbols eng1 = [''A'', ''B'']"
    and ps: "map fst (positions (bt_portfolio eng2)) = [''B'']"
    by (elim exE conjE)
  from equity_sample_marks[where env=fixed_env and dt=2 and st=st1 and eng=eng1 and curve=c1
      and st'=st2 and eng'=eng2 and curve'=c2] s2 ev
  have c: "c2 = c1 @
           [(2, cash (bt_portfolio eng2) +
                 sum_list (map (\<lambda>(symb, pos). of_int (pos_quantity pos) *
                     (if symb \<in> set (bt_symbols eng1)
                      then (case price_at eng1 symb 2 of None \<Rightarrow> 0 | Some p \<Rightarrow> p) else 0))
                   (positions (bt_portfolio eng2))))]"
    by blast
  have "map (\<lambda>(symb, pos). of_int (pos_quantity pos) *
                     (if symb \<in> set (bt_symbols eng1)
                      then (case price_at eng1 symb 2 of None \<Rightarrow> 0 | Some p \<Rightarrow> p) else 0))
                   (positions (bt_portfolio eng2)) =
        map (\<lambda>(symb, pos). of_int (pos_quantity pos) * (0::real)) (positions (bt_portfolio eng2))"
  proof (rule map_cong[OF refl])
    fix x assume "x \<in> set (positions (bt_portfolio eng2))"
    then have "fst x \<in> set (map fst (positions (bt_portfolio eng2)))" by simp
    then have "fst x = ''B''" unfolding ps by simp
    then show "(case x of (symb, pos) \<Rightarrow> of_int (pos_quantity pos) *
                     (if symb \<in> set (bt_symbols eng1)
                      then (case price_at eng1 symb 2 of None \<Rightarrow> 0 | Some p \<Rightarrow> p) else 0)) =
               (case x of (symb, pos) \<Rightarrow> of_int (pos_quantity pos) * (0::real))"
      using pb by (cases x) simp
  qed
  with c have c': "c2 = c1 @ [(2, cash (bt_portfolio eng2) +
                     sum_list (map (\<lambda>(symb, pos). of_int (pos_quantity pos) * 0)
                       (positions (bt_portfolio eng2))))]"
    by simp
  have "\<exists>st eng curve. run fixed_env empty_store sparse_engine = Inr (st, eng, curve)"
    by (simp add: sparse_eval)
  then obtain st eng curve where
    r: "run fixed_env empty_store sparse_engine = Inr (st, eng, curve)" by blast
  have dk: "distinct (map fst sparse_data)" by (simp add: sparse_data_def)
  have dates: "bt_dates sparse_engine = [1, 2]"
    by (simp add: sparse_engine_def BacktestEngine_init_def sparse_data_def)
  from equity_sample_marks[where dat=sparse_data and strats="[buy_b]" and c=10000 and comm=1
      and slip=0 and prog=100 and env=fixed_env and ?st0.0=empty_store and ?st2.0=st
      and ?eng2.0=eng and ?curve2.0=curve] dk r
  have m: "map fst curve = [1, 2]" unfolding sparse_engine_def[symmetric] dates by blast
  have a: "\<exists>st1 eng1 c1 st2 eng2 c2.
      run_step fixed_env 1 (empty_store, sparse_engine, []) = Inr (st1, eng1, c1) \<and>
      run_step fixed_env 2 (st1, eng1, c1) = Inr (st2, eng2, c2) \<and>
      price_at eng1 ''B'' 2 = None \<and>
      c2 = c1 @ [(2, cash (bt_portfolio eng2) +
                     sum_list (map (\<lambda>(symb, pos). of_int (pos_quantity pos) * 0)
                       (positions (bt_portfolio eng2))))]"
    by (rule exI[of _ st1], rule exI[of _ eng1], rule exI[of _ c1], rule exI[of _ st2],
        rule exI[of _ eng2], rule exI[of _ c2]) (intro conjI s1 s2 pb c')
  have b: "\<exists>st eng curve.
      run fixed_env empty_store sparse_engine = Inr (st, eng, curve) \<and> map fst curve = [1, 2]"
    by (rule exI[of _ st], rule exI[of _ eng], rule exI[of _ curve]) (intro conjI r m)
  show ?thesis using a b by (rule conjI)
qed

end
